theory Spec2Isabelle
  imports Main "HOL-Library.Word" "HOL-Library.Multiset"
begin

section \<open>Transactions and big integers\<close>

text \<open>
  Modelled from the spec: \<^verbatim>\<open>types.Transaction\<close> is declared in package core/types, which
  is not part of the sources at hand. The spec gives it as an immutable record exposing a
  hash, a 64-bit nonce, an arbitrary-precision gas price, a 64-bit gas limit, a cost equal
  to gas times gas price plus the transferred value, and the address of the sender.
\<close>

record transaction =
  Hash :: "256 word"
  Nonce :: "64 word"
  GasPrice :: int
  Gas :: "64 word"
  Value :: int
  Sender :: "160 word"

definition Cost :: "transaction \<Rightarrow> int" where
  "Cost tx = GasPrice tx * uint (Gas tx) + Value tx"

text \<open>
  Modelled from the spec: \<^verbatim>\<open>accountSet\<close> is declared with the pool, outside the sources at
  hand. Its \<^verbatim>\<open>containsTx\<close> is the predicate that identifies protected transactions: the
  sender is one of a set of privileged accounts. The operations of the priced list take the
  predicate itself as a parameter.
\<close>

definition containsTx :: "160 word set \<Rightarrow> transaction \<Rightarrow> bool" where
  "containsTx accounts tx \<longleftrightarrow> Sender tx \<in> accounts"

text \<open>
  \<^verbatim>\<open>big.Int.Div\<close> is Euclidean division: the remainder is never negative. The Go
  function panics on a zero divisor; the only divisor the pool uses is the constant 100.
\<close>

definition big_Div :: "int \<Rightarrow> int \<Rightarrow> int" where
  "big_Div x y = (if y < 0 then - (x div (- y)) else x div y)"

section \<open>container/heap\<close>

text \<open>
  The binary heap of Go's standard library, over a slice and a \<^verbatim>\<open>Less\<close> function.
  Indices are natural numbers; Go's guard against an overflowing child index is left out,
  a slice being far shorter than \<open>2 ^ 62\<close>.
\<close>

definition Swap :: "'a list \<Rightarrow> nat \<Rightarrow> nat \<Rightarrow> 'a list" where
  "Swap h i j = h[i := h ! j, j := h ! i]"

function down_loop :: "('a \<Rightarrow> 'a \<Rightarrow> bool) \<Rightarrow> 'a list \<Rightarrow> nat \<Rightarrow> nat \<Rightarrow> 'a list \<times> nat" where
  "down_loop lt h i n =
     (let j1 = 2 * i + 1 in
      if j1 \<ge> n then (h, i)
      else let j = (if j1 + 1 < n \<and> lt (h ! (j1 + 1)) (h ! j1) then j1 + 1 else j1) in
        if \<not> lt (h ! j) (h ! i) then (h, i)
        else down_loop lt (Swap h i j) j n)"
  by pat_completeness auto
termination
  by (relation "measure (\<lambda>(lt, h, i, n). n - i)") auto

declare down_loop.simps [simp del]

text \<open>\<^verbatim>\<open>down\<close> reports whether the element moved.\<close>

definition down :: "('a \<Rightarrow> 'a \<Rightarrow> bool) \<Rightarrow> 'a list \<Rightarrow> nat \<Rightarrow> nat \<Rightarrow> 'a list \<times> bool" where
  "down lt h i0 n = (case down_loop lt h i0 n of (h', i) \<Rightarrow> (h', i > i0))"

text \<open>
  In \<^verbatim>\<open>up\<close> the parent of index 0 is \<open>(0 - 1) / 2 = 0\<close> under Go's truncating
  division, which is also what subtraction on natural numbers gives.
\<close>

function up :: "('a \<Rightarrow> 'a \<Rightarrow> bool) \<Rightarrow> 'a list \<Rightarrow> nat \<Rightarrow> 'a list" where
  "up lt h j =
     (let i = (j - 1) div 2 in
      if i = j \<or> \<not> lt (h ! j) (h ! i) then h
      else up lt (Swap h i j) i)"
  by pat_completeness auto
termination
  by (relation "measure (\<lambda>(lt, h, j). j)") auto

declare up.simps [simp del]

definition heap_Init :: "('a \<Rightarrow> 'a \<Rightarrow> bool) \<Rightarrow> 'a list \<Rightarrow> 'a list" where
  "heap_Init lt h = foldl (\<lambda>h' i. fst (down lt h' i (length h))) h (rev [0..<length h div 2])"

definition heap_Push :: "('a \<Rightarrow> 'a \<Rightarrow> bool) \<Rightarrow> 'a list \<Rightarrow> 'a \<Rightarrow> 'a list" where
  "heap_Push lt h x = up lt (h @ [x]) (length h)"

text \<open>\<^verbatim>\<open>heap.Pop\<close> and \<^verbatim>\<open>heap.Remove\<close> panic on an index out of range: \<open>None\<close>.\<close>

definition heap_Pop :: "('a \<Rightarrow> 'a \<Rightarrow> bool) \<Rightarrow> 'a list \<Rightarrow> ('a \<times> 'a list) option" where
  "heap_Pop lt h =
     (if h = [] then None
      else let n = length h - 1;
               h1 = Swap h 0 n;
               h2 = fst (down lt h1 0 n)
           in Some (last h2, butlast h2))"

definition heap_Remove :: "('a \<Rightarrow> 'a \<Rightarrow> bool) \<Rightarrow> 'a list \<Rightarrow> nat \<Rightarrow> ('a \<times> 'a list) option" where
  "heap_Remove lt h i =
     (if length h \<le> i then None
      else let n = length h - 1;
               h' = (if n \<noteq> i
                     then (case down lt (Swap h i n) i n of
                             (h2, moved) \<Rightarrow> if \<not> moved then up lt h2 i else h2)
                     else h)
           in Some (last h', butlast h'))"

subsection \<open>The heap operations keep the length of the slice\<close>

lemma length_Swap [simp]: "length (Swap h i j) = length h"
  by (simp add: Swap_def)

lemma length_down_loop [simp]: "length (fst (down_loop lt h i n)) = length h"
proof (induction lt h i n rule: down_loop.induct)
  case (1 lt h i n)
  show ?case
    by (subst down_loop.simps) (use 1 in \<open>auto simp: Let_def\<close>)
qed

lemma length_down [simp]: "length (fst (down lt h i n)) = length h"
proof -
  have "fst (down lt h i n) = fst (down_loop lt h i n)"
    by (simp add: down_def split: prod.splits)
  then show ?thesis by simp
qed

lemma length_up [simp]: "length (up lt h j) = length h"
proof (induction lt h j rule: up.induct)
  case (1 lt h j)
  show ?case
    by (subst up.simps) (use 1 in \<open>auto simp: Let_def\<close>)
qed

lemma heap_Pop_length: "heap_Pop lt h = Some (x, h') \<Longrightarrow> length h' < length h"
  by (auto simp: heap_Pop_def Let_def split: if_splits)

lemma heap_Push_length [simp]: "length (heap_Push lt h x) = Suc (length h)"
  by (simp add: heap_Push_def)

section \<open>Iteration over a Go map\<close>

text \<open>
  A \<^verbatim>\<open>range\<close> loop over a Go map visits every key once, in an order the language leaves
  open. An operation that ranges over a map takes the order as a parameter: a function from
  the map to the list of its keys as visited.
\<close>

definition range_ok :: "(('k \<rightharpoonup> 'v) \<Rightarrow> 'k list) \<Rightarrow> bool" where
  "range_ok rk \<longleftrightarrow> (\<forall>m. finite (dom m) \<longrightarrow> distinct (rk m) \<and> set (rk m) = dom m)"

definition ascending_keys :: "('k::linorder \<rightharpoonup> 'v) \<Rightarrow> 'k list" where
  "ascending_keys m = sorted_list_of_set (dom m)"

section \<open>txSortedMap\<close>

record txSortedMap =
  items :: "64 word \<rightharpoonup> transaction"
  index :: "64 word list"
  cache :: "transaction list option"

definition newTxSortedMap :: txSortedMap where
  "newTxSortedMap = \<lparr>items = Map.empty, index = [], cache = None\<rparr>"

definition txSortedMap_Get :: "txSortedMap \<Rightarrow> 64 word \<Rightarrow> transaction option" where
  "txSortedMap_Get m nonce = items m nonce"

definition txSortedMap_Put :: "transaction \<Rightarrow> txSortedMap \<Rightarrow> txSortedMap" where
  "txSortedMap_Put tx m =
     (let nonce = Nonce tx;
          idx = (if items m nonce = None then heap_Push (<) (index m) nonce else index m)
      in m\<lparr>items := (items m)(nonce \<mapsto> tx), index := idx, cache := None\<rparr>)"

text \<open>
  The loop of \<^verbatim>\<open>Forward\<close>. A nonce of the index with no entry in \<open>items\<close> would put a nil
  transaction into the result, and a cache shorter than the removed prefix makes the slice
  expression panic; both are reported as \<open>None\<close>.
\<close>

function Forward_loop ::
  "64 word \<Rightarrow> transaction list \<times> 64 word list \<times> (64 word \<rightharpoonup> transaction) \<Rightarrow>
   (transaction list \<times> 64 word list \<times> (64 word \<rightharpoonup> transaction)) option" where
  "Forward_loop threshold (removed, idx, its) =
     (if length idx > 0 \<and> idx ! 0 < threshold then
        (case heap_Pop (<) idx of
           None \<Rightarrow> None
         | Some (nonce, idx') \<Rightarrow>
             (case its nonce of
                None \<Rightarrow> None
              | Some tx \<Rightarrow> Forward_loop threshold (removed @ [tx], idx', its(nonce := None))))
      else Some (removed, idx, its))"
  by pat_completeness auto
termination
  by (relation "measure (\<lambda>(threshold, removed, idx, its). length idx)")
     (auto dest: heap_Pop_length)

declare Forward_loop.simps [simp del]

definition txSortedMap_Forward ::
  "64 word \<Rightarrow> txSortedMap \<Rightarrow> (transaction list \<times> txSortedMap) option" where
  "txSortedMap_Forward threshold m =
     (case Forward_loop threshold ([], index m, items m) of
        None \<Rightarrow> None
      | Some (removed, idx, its) \<Rightarrow>
          (case cache m of
             None \<Rightarrow> Some (removed, m\<lparr>items := its, index := idx\<rparr>)
           | Some c \<Rightarrow>
               if length removed \<le> length c
               then Some (removed, m\<lparr>items := its, index := idx, cache := Some (drop (length removed) c)\<rparr>)
               else None))"

text \<open>The first loop of \<^verbatim>\<open>Filter\<close>, over the keys in the order the range visits them.\<close>

fun Filter_loop ::
  "(transaction \<Rightarrow> bool) \<Rightarrow> 64 word list \<Rightarrow> transaction list \<times> (64 word \<rightharpoonup> transaction) \<Rightarrow>
   transaction list \<times> (64 word \<rightharpoonup> transaction)" where
  "Filter_loop filter_fn [] (removed, its) = (removed, its)"
| "Filter_loop filter_fn (nonce # ks) (removed, its) =
     (case its nonce of
        None \<Rightarrow> Filter_loop filter_fn ks (removed, its)
      | Some tx \<Rightarrow>
          if filter_fn tx
          then Filter_loop filter_fn ks (removed @ [tx], its(nonce := None))
          else Filter_loop filter_fn ks (removed, its))"

definition txSortedMap_Filter ::
  "((64 word \<rightharpoonup> transaction) \<Rightarrow> 64 word list) \<Rightarrow> (transaction \<Rightarrow> bool) \<Rightarrow> txSortedMap \<Rightarrow>
   transaction list \<times> txSortedMap" where
  "txSortedMap_Filter rk filter_fn m =
     (case Filter_loop filter_fn (rk (items m)) ([], items m) of
        (removed, its) \<Rightarrow>
          if length removed > 0
          then (removed, m\<lparr>items := its, index := heap_Init (<) (rk its), cache := None\<rparr>)
          else (removed, m\<lparr>items := its\<rparr>))"

text \<open>
  \<^verbatim>\<open>Cap\<close> takes a Go \<^verbatim>\<open>int\<close>. \<^verbatim>\<open>sort.Sort\<close> orders the index ascending. The loop reads
  \<^verbatim>\<open>(*m.index)[size-1]\<close>, which panics out of range, and the cache is cut by a slice
  expression that panics on a negative bound: \<open>None\<close>. As in \<^verbatim>\<open>Forward\<close>, a nonce of the
  index without an entry in \<open>items\<close> is reported as \<open>None\<close> too.
\<close>

function Cap_loop ::
  "int \<Rightarrow> 64 word list \<Rightarrow> int \<Rightarrow> transaction list \<times> (64 word \<rightharpoonup> transaction) \<Rightarrow>
   (transaction list \<times> (64 word \<rightharpoonup> transaction)) option" where
  "Cap_loop threshold idx sz (drops, its) =
     (if sz > threshold then
        (if 0 \<le> sz - 1 \<and> sz - 1 < int (length idx) then
           (case its (idx ! nat (sz - 1)) of
              None \<Rightarrow> None
            | Some tx \<Rightarrow>
                Cap_loop threshold idx (sz - 1) (drops @ [tx], its(idx ! nat (sz - 1) := None)))
         else None)
      else Some (drops, its))"
  by pat_completeness auto
termination
  by (relation "measure (\<lambda>(threshold, idx, sz, acc). nat (sz - threshold))") auto

declare Cap_loop.simps [simp del]

definition txSortedMap_Cap :: "int \<Rightarrow> txSortedMap \<Rightarrow> (transaction list \<times> txSortedMap) option" where
  "txSortedMap_Cap threshold m =
     (if int (card (dom (items m))) \<le> threshold then Some ([], m)
      else
        let sorted_idx = sort (index m) in
        (case Cap_loop threshold sorted_idx (int (card (dom (items m)))) ([], items m) of
           None \<Rightarrow> None
         | Some (drops, its) \<Rightarrow>
             let idx = heap_Init (<) (take (nat threshold) sorted_idx) in
             (case cache m of
                None \<Rightarrow> Some (drops, m\<lparr>items := its, index := idx\<rparr>)
              | Some c \<Rightarrow>
                  if length drops \<le> length c
                  then Some (drops, m\<lparr>items := its, index := idx,
                                       cache := Some (take (length c - length drops) c)\<rparr>)
                  else None)))"

text \<open>
  The scan of \<^verbatim>\<open>Remove\<close> for the position of the nonce in the index. The position it
  hands to \<^verbatim>\<open>heap.Remove\<close> is below the length, so the call cannot panic.
\<close>

function Remove_scan :: "64 word \<Rightarrow> 64 word list \<Rightarrow> nat \<Rightarrow> 64 word list" where
  "Remove_scan nonce idx i =
     (if i < length idx then
        (if idx ! i = nonce
         then (case heap_Remove (<) idx i of Some (x, idx') \<Rightarrow> idx' | None \<Rightarrow> idx)
         else Remove_scan nonce idx (i + 1))
      else idx)"
  by pat_completeness auto
termination
  by (relation "measure (\<lambda>(nonce, idx, i). length idx - i)") auto

declare Remove_scan.simps [simp del]

definition txSortedMap_Remove :: "64 word \<Rightarrow> txSortedMap \<Rightarrow> bool \<times> txSortedMap" where
  "txSortedMap_Remove nonce m =
     (case items m nonce of
        None \<Rightarrow> (False, m)
      | Some tx \<Rightarrow>
          (True, m\<lparr>items := (items m)(nonce := None),
                    index := Remove_scan nonce (index m) 0,
                    cache := None\<rparr>))"

definition txSortedMap_Len :: "txSortedMap \<Rightarrow> nat" where
  "txSortedMap_Len m = card (dom (items m))"

section \<open>txList\<close>

record txList =
  strict :: bool
  txs :: txSortedMap
  costcap :: int
  gascap :: "64 word"

definition newTxList :: "bool \<Rightarrow> txList" where
  "newTxList s = \<lparr>strict = s, txs = newTxSortedMap, costcap = 0, gascap = 0\<rparr>"

definition txList_Overlaps :: "transaction \<Rightarrow> txList \<Rightarrow> bool" where
  "txList_Overlaps tx l \<longleftrightarrow> txSortedMap_Get (txs l) (Nonce tx) \<noteq> None"

text \<open>
  The multiplier of \<^verbatim>\<open>Add\<close> is \<^verbatim>\<open>big.NewInt(100+int64(priceBump))\<close>: the conversion of
  the unsigned \<^verbatim>\<open>priceBump\<close> to \<^verbatim>\<open>int64\<close> keeps the bits, and the sum wraps around in 64
  bits, so the value handed to \<^verbatim>\<open>big.NewInt\<close> is the signed reading of the 64-bit sum.
\<close>

definition bump_multiplier :: "64 word \<Rightarrow> int" where
  "bump_multiplier priceBump = sint (100 + priceBump)"

definition txList_Add ::
  "transaction \<Rightarrow> 64 word \<Rightarrow> txList \<Rightarrow> (bool \<times> transaction option) \<times> txList" where
  "txList_Add tx priceBump l =
     (let old = txSortedMap_Get (txs l) (Nonce tx) in
      if (case old of
            None \<Rightarrow> False
          | Some old_tx \<Rightarrow>
              let threshold = big_Div (GasPrice old_tx * bump_multiplier priceBump) 100 in
              GasPrice old_tx \<ge> GasPrice tx \<or> threshold > GasPrice tx)
      then ((False, None), l)
      else
        let l1 = l\<lparr>txs := txSortedMap_Put tx (txs l)\<rparr>;
            l2 = (if costcap l1 < Cost tx then l1\<lparr>costcap := Cost tx\<rparr> else l1);
            l3 = (if gascap l2 < Gas tx then l2\<lparr>gascap := Gas tx\<rparr> else l2)
        in ((True, old), l3))"

definition txList_Forward :: "64 word \<Rightarrow> txList \<Rightarrow> (transaction list \<times> txList) option" where
  "txList_Forward threshold l =
     (case txSortedMap_Forward threshold (txs l) of
        None \<Rightarrow> None
      | Some (removed, m) \<Rightarrow> Some (removed, l\<lparr>txs := m\<rparr>))"

definition lowest_nonce :: "transaction list \<Rightarrow> 64 word" where
  "lowest_nonce removed =
     foldl (\<lambda>lowest tx. if lowest > Nonce tx then Nonce tx else lowest) (- 1) removed"

text \<open>
  \<^verbatim>\<open>Filter\<close> runs \<^verbatim>\<open>txs.Filter\<close> up to twice; each run ranges over the map in an order
  of its own.
\<close>

definition txList_Filter ::
  "((64 word \<rightharpoonup> transaction) \<Rightarrow> 64 word list) \<Rightarrow> ((64 word \<rightharpoonup> transaction) \<Rightarrow> 64 word list) \<Rightarrow>
   int \<Rightarrow> 64 word \<Rightarrow> txList \<Rightarrow> (transaction list \<times> transaction list) \<times> txList" where
  "txList_Filter rk1 rk2 costLimit gasLimit l =
     (if costcap l \<le> costLimit \<and> gascap l \<le> gasLimit then (([], []), l)
      else
        let l1 = l\<lparr>costcap := costLimit, gascap := gasLimit\<rparr> in
        (case txSortedMap_Filter rk1 (\<lambda>tx. Cost tx > costLimit \<or> Gas tx > gasLimit) (txs l1) of
           (removed, m1) \<Rightarrow>
             if strict l1 \<and> length removed > 0 then
               (case txSortedMap_Filter rk2 (\<lambda>tx. Nonce tx > lowest_nonce removed) m1 of
                  (invalids, m2) \<Rightarrow> ((removed, invalids), l1\<lparr>txs := m2\<rparr>))
             else ((removed, []), l1\<lparr>txs := m1\<rparr>)))"

definition txList_Cap :: "int \<Rightarrow> txList \<Rightarrow> (transaction list \<times> txList) option" where
  "txList_Cap threshold l =
     (case txSortedMap_Cap threshold (txs l) of
        None \<Rightarrow> None
      | Some (drops, m) \<Rightarrow> Some (drops, l\<lparr>txs := m\<rparr>))"

definition txList_Remove ::
  "((64 word \<rightharpoonup> transaction) \<Rightarrow> 64 word list) \<Rightarrow> transaction \<Rightarrow> txList \<Rightarrow>
   (bool \<times> transaction list) \<times> txList" where
  "txList_Remove rk tx l =
     (let nonce = Nonce tx in
      case txSortedMap_Remove nonce (txs l) of
        (removed, m) \<Rightarrow>
          if \<not> removed then ((False, []), l\<lparr>txs := m\<rparr>)
          else if strict l then
            (case txSortedMap_Filter rk (\<lambda>tx'. Nonce tx' > nonce) m of
               (invalids, m') \<Rightarrow> ((True, invalids), l\<lparr>txs := m'\<rparr>))
          else ((True, []), l\<lparr>txs := m\<rparr>))"

section \<open>txPricedList\<close>

text \<open>\<^verbatim>\<open>priceHeap.Less\<close>: cheaper first; at equal price the higher nonce first.\<close>

definition price_Less :: "transaction \<Rightarrow> transaction \<Rightarrow> bool" where
  "price_Less a b =
     (if GasPrice a < GasPrice b then True
      else if GasPrice a > GasPrice b then False
      else Nonce a > Nonce b)"

text \<open>
  The list holds a pointer to the pool's map of all transactions, which the pool changes
  behind its back; here the map is a field, read by the operations. \<^verbatim>\<open>stales\<close> is a Go
  \<^verbatim>\<open>int\<close> and can go below zero.
\<close>

record txPricedList =
  all_txs :: "256 word \<rightharpoonup> transaction"
  price_items :: "transaction list"
  stales :: int

definition newTxPricedList :: "(256 word \<rightharpoonup> transaction) \<Rightarrow> txPricedList" where
  "newTxPricedList all_map = \<lparr>all_txs = all_map, price_items = [], stales = 0\<rparr>"

definition txPricedList_Put :: "transaction \<Rightarrow> txPricedList \<Rightarrow> txPricedList" where
  "txPricedList_Put tx l = l\<lparr>price_items := heap_Push price_Less (price_items l) tx\<rparr>"

text \<open>
  \<^verbatim>\<open>Removed\<close> ranges over the map of all transactions when it rebuilds the heap; the order
  of the range is a parameter.
\<close>

definition txPricedList_Removed ::
  "((256 word \<rightharpoonup> transaction) \<Rightarrow> 256 word list) \<Rightarrow> txPricedList \<Rightarrow> txPricedList" where
  "txPricedList_Removed rk l =
     (let l1 = l\<lparr>stales := stales l + 1\<rparr> in
      if stales l1 \<le> int (length (price_items l1)) div 4 then l1
      else l1\<lparr>stales := 0,
              price_items := heap_Init price_Less (List.map_filter (all_txs l1) (rk (all_txs l1)))\<rparr>)"

text \<open>
  The loop of \<^verbatim>\<open>Cap\<close> over the state (heap, stales, drop, save). \<^verbatim>\<open>heap.Pop\<close> is called on
  a heap that is not empty, so it cannot panic.
\<close>

function PricedCap_loop ::
  "(256 word \<rightharpoonup> transaction) \<Rightarrow> int \<Rightarrow> (transaction \<Rightarrow> bool) \<Rightarrow>
   transaction list \<times> int \<times> transaction list \<times> transaction list \<Rightarrow>
   transaction list \<times> int \<times> transaction list \<times> transaction list" where
  "PricedCap_loop all_map threshold is_local (its, st, dropped, save) =
     (if length its > 0 then
        (case heap_Pop price_Less its of
           None \<Rightarrow> (its, st, dropped, save)
         | Some (tx, its') \<Rightarrow>
             if all_map (Hash tx) = None
             then PricedCap_loop all_map threshold is_local (its', st - 1, dropped, save)
             else if GasPrice tx \<ge> threshold then (its', st, dropped, save @ [tx])
             else if is_local tx
             then PricedCap_loop all_map threshold is_local (its', st, dropped, save @ [tx])
             else PricedCap_loop all_map threshold is_local (its', st, dropped @ [tx], save))
      else (its, st, dropped, save))"
  by pat_completeness auto
termination
  by (relation "measure (\<lambda>(all_map, threshold, is_local, its, rest). length its)")
     (auto dest: heap_Pop_length)

declare PricedCap_loop.simps [simp del]

definition txPricedList_Cap ::
  "int \<Rightarrow> (transaction \<Rightarrow> bool) \<Rightarrow> txPricedList \<Rightarrow> transaction list \<times> txPricedList" where
  "txPricedList_Cap threshold is_local l =
     (case PricedCap_loop (all_txs l) threshold is_local (price_items l, stales l, [], []) of
        (its, st, dropped, save) \<Rightarrow>
          (dropped, l\<lparr>price_items := foldl (heap_Push price_Less) its save, stales := st\<rparr>))"

text \<open>The loop of \<^verbatim>\<open>Underpriced\<close> that skims stale entries off the top of the heap.\<close>

function Underpriced_loop ::
  "(256 word \<rightharpoonup> transaction) \<Rightarrow> transaction list \<times> int \<Rightarrow> transaction list \<times> int" where
  "Underpriced_loop all_map (its, st) =
     (if length its > 0 then
        (if all_map (Hash (its ! 0)) = None then
           (case heap_Pop price_Less its of
              None \<Rightarrow> (its, st - 1)
            | Some (tx, its') \<Rightarrow> Underpriced_loop all_map (its', st - 1))
         else (its, st))
      else (its, st))"
  by pat_completeness auto
termination
  by (relation "measure (\<lambda>(all_map, its, st). length its)") (auto dest: heap_Pop_length)

declare Underpriced_loop.simps [simp del]

definition txPricedList_Underpriced ::
  "transaction \<Rightarrow> (transaction \<Rightarrow> bool) \<Rightarrow> txPricedList \<Rightarrow> bool \<times> txPricedList" where
  "txPricedList_Underpriced tx is_local l =
     (if is_local tx then (False, l)
      else
        (case Underpriced_loop (all_txs l) (price_items l, stales l) of
           (its, st) \<Rightarrow>
             let l' = l\<lparr>price_items := its, stales := st\<rparr> in
             if length its = 0 then (False, l')
             else (GasPrice (its ! 0) \<ge> GasPrice tx, l')))"

text \<open>The loop of \<^verbatim>\<open>Discard\<close> over the state (heap, stales, count, drop, save).\<close>

function Discard_loop ::
  "(256 word \<rightharpoonup> transaction) \<Rightarrow> (transaction \<Rightarrow> bool) \<Rightarrow>
   transaction list \<times> int \<times> int \<times> transaction list \<times> transaction list \<Rightarrow>
   transaction list \<times> int \<times> int \<times> transaction list \<times> transaction list" where
  "Discard_loop all_map is_local (its, st, cnt, dropped, save) =
     (if length its > 0 \<and> cnt > 0 then
        (case heap_Pop price_Less its of
           None \<Rightarrow> (its, st, cnt, dropped, save)
         | Some (tx, its') \<Rightarrow>
             if all_map (Hash tx) = None
             then Discard_loop all_map is_local (its', st - 1, cnt, dropped, save)
             else if is_local tx
             then Discard_loop all_map is_local (its', st, cnt, dropped, save @ [tx])
             else Discard_loop all_map is_local (its', st, cnt - 1, dropped @ [tx], save))
      else (its, st, cnt, dropped, save))"
  by pat_completeness auto
termination
  by (relation "measure (\<lambda>(all_map, is_local, its, rest). length its)")
     (auto dest: heap_Pop_length)

declare Discard_loop.simps [simp del]

text \<open>
  \<^verbatim>\<open>Discard\<close> starts with \<^verbatim>\<open>make(types.Transactions, 0, count)\<close>, which panics before the
  loop when \<^verbatim>\<open>count\<close> is negative or above the largest capacity the runtime allocates for
  a slice of pointers: \<open>None\<close>. That limit depends on the platform and on the version of
  Go, so it is a parameter, \<open>max_cap\<close>. (\<^verbatim>\<open>Cap\<close> allocates with constant capacities.)
\<close>

definition txPricedList_Discard ::
  "int \<Rightarrow> int \<Rightarrow> (transaction \<Rightarrow> bool) \<Rightarrow> txPricedList \<Rightarrow>
   (transaction list \<times> txPricedList) option" where
  "txPricedList_Discard max_cap cnt is_local l =
     (if cnt < 0 \<or> max_cap < cnt then None
      else
        (case Discard_loop (all_txs l) is_local (price_items l, stales l, cnt, [], []) of
           (its, st, cnt', dropped, save) \<Rightarrow>
             Some (dropped,
                   l\<lparr>price_items := foldl (heap_Push price_Less) its save, stales := st\<rparr>)))"

section \<open>txJournal\<close>


text \<open>
  The files are a map from paths to contents. Every call into package os and every write
  can fail; which ones do is a parameter \<open>fails\<close> of the operations, so that each error
  return of the source is a branch of the model. \<^verbatim>\<open>OpEncode p k\<close> is the \<open>k\<close>-th
  \<^verbatim>\<open>rlp.Encode\<close> into the file \<open>p\<close> during a rotation.
\<close>

datatype WriteCloser = devNull | File string

datatype fs_op =
  OpOpen string | OpCreate string | OpEncode string nat | OpRename string string
  | OpAppend string | OpWrite string | OpClose string

datatype journal_error = errNoActiveJournal | errIO fs_op | errDecode

record txJournal =
  path :: string
  writer :: "WriteCloser option"

definition newTxJournal :: "string \<Rightarrow> txJournal" where
  "newTxJournal p = \<lparr>path = p, writer = None\<rparr>"




definition txJournal_insert ::
  "(fs_op \<Rightarrow> bool) \<Rightarrow> ('tx \<Rightarrow> 8 word list) \<Rightarrow> 'tx \<Rightarrow> txJournal \<Rightarrow> (string \<rightharpoonup> 8 word list) \<Rightarrow>
   journal_error option \<times> (string \<rightharpoonup> 8 word list)" where
  "txJournal_insert fails enc tx journal fs =
     (case writer journal of
        None \<Rightarrow> (Some errNoActiveJournal, fs)
      | Some devNull \<Rightarrow> (None, fs)
      | Some (File p) \<Rightarrow>
          if fails (OpWrite p) then (Some (errIO (OpWrite p)), fs)
          else
            (case fs p of
               None \<Rightarrow> (None, fs)
             | Some content \<Rightarrow> (None, fs(p \<mapsto> content @ enc tx))))"

text \<open>
  The two nested loops of \<^verbatim>\<open>rotate\<close>: the accounts in the order the range visits them,
  and the transactions of each account in slice order. \<open>journaled\<close> is that sequence and
  \<open>encode_all\<close> writes it, stopping at the first write that fails.
\<close>

fun encode_all ::
  "(fs_op \<Rightarrow> bool) \<Rightarrow> ('tx \<Rightarrow> 8 word list) \<Rightarrow> string \<Rightarrow> 'tx list \<Rightarrow> nat \<Rightarrow> 8 word list \<Rightarrow>
   fs_op option \<times> 8 word list" where
  "encode_all fails enc p [] k content = (None, content)"
| "encode_all fails enc p (tx # ts) k content =
     (if fails (OpEncode p k) then (Some (OpEncode p k), content)
      else encode_all fails enc p ts (Suc k) (content @ enc tx))"

definition journaled ::
  "((160 word \<rightharpoonup> 'tx list) \<Rightarrow> 160 word list) \<Rightarrow> (160 word \<rightharpoonup> 'tx list) \<Rightarrow> 'tx list" where
  "journaled rk all_map = concat (List.map_filter all_map (rk all_map))"

definition close_writer :: "(fs_op \<Rightarrow> bool) \<Rightarrow> WriteCloser option \<Rightarrow> journal_error option" where
  "close_writer fails w =
     (case w of
        Some (File p) \<Rightarrow> if fails (OpClose p) then Some (errIO (OpClose p)) else None
      | _ \<Rightarrow> None)"

definition txJournal_rotate ::
  "(fs_op \<Rightarrow> bool) \<Rightarrow> ('tx \<Rightarrow> 8 word list) \<Rightarrow> ((160 word \<rightharpoonup> 'tx list) \<Rightarrow> 160 word list) \<Rightarrow>
   (160 word \<rightharpoonup> 'tx list) \<Rightarrow> txJournal \<Rightarrow> (string \<rightharpoonup> 8 word list) \<Rightarrow>
   journal_error option \<times> txJournal \<times> (string \<rightharpoonup> 8 word list)" where
  "txJournal_rotate fails enc rk all_map journal fs =
     (case close_writer fails (writer journal) of
        Some e \<Rightarrow> (Some e, journal, fs)
      | None \<Rightarrow>
          let journal1 = journal\<lparr>writer := None\<rparr>;
              replacement = path journal @ ''.new''
          in
          if fails (OpCreate replacement)
          then (Some (errIO (OpCreate replacement)), journal1, fs)
          else
            (case encode_all fails enc replacement (journaled rk all_map) 0 [] of
               (Some failed, content) \<Rightarrow>
                 (Some (errIO failed), journal1, fs(replacement \<mapsto> content))
             | (None, content) \<Rightarrow>
                 let fs2 = fs(replacement \<mapsto> content) in
                 if fails (OpRename replacement (path journal))
                 then (Some (errIO (OpRename replacement (path journal))), journal1, fs2)
                 else
                   let fs3 = fs2(replacement := None, path journal \<mapsto> content) in
                   if fails (OpAppend (path journal))
                   then (Some (errIO (OpAppend (path journal))), journal1, fs3)
                   else (None, journal1\<lparr>writer := Some (File (path journal))\<rparr>, fs3)))"

definition txJournal_close :: "(fs_op \<Rightarrow> bool) \<Rightarrow> txJournal \<Rightarrow> journal_error option \<times> txJournal" where
  "txJournal_close fails journal =
     (case writer journal of
        None \<Rightarrow> (None, journal)
      | Some w \<Rightarrow> (close_writer fails (Some w), journal\<lparr>writer := None\<rparr>))"

section \<open>Data invariants and reference results\<close>

text \<open>Every transaction is stored under its own nonce, as \<^verbatim>\<open>Put\<close> stores it.\<close>

definition keyed :: "txSortedMap \<Rightarrow> bool" where
  "keyed m \<longleftrightarrow> (\<forall>n tx. items m n = Some tx \<longrightarrow> Nonce tx = n)"

text \<open>The index holds the keys of \<open>items\<close>, each once.\<close>

definition index_agrees :: "txSortedMap \<Rightarrow> bool" where
  "index_agrees m \<longleftrightarrow> distinct (index m) \<and> set (index m) = dom (items m)"

text \<open>The index is a min-heap as \<^verbatim>\<open>container/heap\<close> lays it out: no entry is below its parent.\<close>

definition is_heap :: "'a::linorder list \<Rightarrow> bool" where
  "is_heap h \<longleftrightarrow> (\<forall>j < length h. 0 < j \<longrightarrow> h ! ((j - 1) div 2) \<le> h ! j)"

text \<open>The heap order on the first \<open>n\<close> entries, except between \<open>i\<close> and its children.\<close>

definition heap_but :: "'a::linorder list \<Rightarrow> nat \<Rightarrow> nat \<Rightarrow> bool" where
  "heap_but h n i \<longleftrightarrow>
     (\<forall>k. 0 < k \<and> k < n \<and> (k - 1) div 2 \<noteq> i \<longrightarrow> h ! ((k - 1) div 2) \<le> h ! k) \<and>
     (\<forall>k. 0 < k \<and> k < n \<and> (k - 1) div 2 = i \<and> 0 < i \<longrightarrow> h ! ((i - 1) div 2) \<le> h ! k)"

definition heap_upto :: "'a::linorder list \<Rightarrow> nat \<Rightarrow> bool" where
  "heap_upto h n \<longleftrightarrow> (\<forall>k. 0 < k \<and> k < n \<longrightarrow> h ! ((k - 1) div 2) \<le> h ! k)"

text \<open>A present cache is the list of the stored transactions by ascending nonce.\<close>

definition cache_ok :: "txSortedMap \<Rightarrow> bool" where
  "cache_ok m \<longleftrightarrow>
     (case cache m of
        None \<Rightarrow> True
      | Some c \<Rightarrow> c = List.map_filter (items m) (ascending_keys (items m)))"

text \<open>A local transaction that is still in the pool's map of all transactions.\<close>

definition live_local ::
  "(256 word \<rightharpoonup> transaction) \<Rightarrow> (transaction \<Rightarrow> bool) \<Rightarrow> transaction \<Rightarrow> bool" where
  "live_local all_map is_local tx \<longleftrightarrow> is_local tx \<and> all_map (Hash tx) \<noteq> None"

text \<open>The bound on the stale counter that \<^verbatim>\<open>Removed\<close> checks.\<close>

definition stale_bound :: "txPricedList \<Rightarrow> bool" where
  "stale_bound l \<longleftrightarrow> stales l \<le> int (length (price_items l)) div 4"

text \<open>
  What a filter takes out of a map and what it leaves, entry by entry: the reference the
  loop of \<^verbatim>\<open>Filter\<close> is compared with.
\<close>

definition filtered_out ::
  "(transaction \<Rightarrow> bool) \<Rightarrow> (64 word \<rightharpoonup> transaction) \<Rightarrow> 64 word \<Rightarrow> transaction option" where
  "filtered_out filter_fn its nonce =
     (case its nonce of None \<Rightarrow> None | Some tx \<Rightarrow> if filter_fn tx then Some tx else None)"

definition kept ::
  "(transaction \<Rightarrow> bool) \<Rightarrow> (64 word \<rightharpoonup> transaction) \<Rightarrow> 64 word \<Rightarrow> transaction option" where
  "kept filter_fn its nonce =
     (case its nonce of None \<Rightarrow> None | Some tx \<Rightarrow> if filter_fn tx then None else Some tx)"



text \<open>No operation on the files fails.\<close>

definition no_failure :: "(fs_op \<Rightarrow> bool) \<Rightarrow> bool" where
  "no_failure fails \<longleftrightarrow> (\<forall>op. \<not> fails op)"

section \<open>Sample values\<close>

text \<open>A transfer of nothing with the given hash, nonce and gas price, sent by account 0.\<close>

definition example_tx :: "256 word \<Rightarrow> 64 word \<Rightarrow> int \<Rightarrow> transaction" where
  "example_tx h n p = \<lparr>Hash = h, Nonce = n, GasPrice = p, Gas = 21000, Value = 0, Sender = 0\<rparr>"

lemma example_tx_sel [simp]:
  "Hash (example_tx h n p) = h" "Nonce (example_tx h n p) = n"
  "GasPrice (example_tx h n p) = p" "Gas (example_tx h n p) = 21000"
  "Value (example_tx h n p) = 0" "Sender (example_tx h n p) = 0"
  by (simp_all add: example_tx_def)

lemma example_tx_eq [simp]:
  "example_tx h n p = example_tx h' n' p' \<longleftrightarrow> h = h' \<and> n = n' \<and> p = p'"
  by (auto simp: example_tx_def)

definition example_map :: txSortedMap where
  "example_map = \<lparr>items = [5 \<mapsto> example_tx 15 5 10, 6 \<mapsto> example_tx 16 6 10, 7 \<mapsto> example_tx 17 7 10],
                   index = [5, 6, 7], cache = None\<rparr>"

definition example_list :: txList where
  "example_list = \<lparr>strict = True, txs = example_map, costcap = 210000, gascap = 21000\<rparr>"

lemma example_map_simps [simp]:
  "items example_map = [5 \<mapsto> example_tx 15 5 10, 6 \<mapsto> example_tx 16 6 10, 7 \<mapsto> example_tx 17 7 10]"
  "index example_map = [5, 6, 7]" "cache example_map = None"
  by (simp_all add: example_map_def)

lemma example_list_simps [simp]:
  "strict example_list" "txs example_list = example_map"
  by (simp_all add: example_list_def)

lemma keyed_example_map: "keyed example_map"
  by (simp add: keyed_def)

lemma index_agrees_example_map: "index_agrees example_map"
  by (auto simp: index_agrees_def)

lemma ascending_keys_example_map: "ascending_keys (items example_map) = [5, 6, 7]"
  by (simp add: ascending_keys_def)

lemma card_example_map: "card (dom (items example_map)) = 3"
  by simp

text \<open>The same, sent by account 1.\<close>

definition local_tx :: "256 word \<Rightarrow> 64 word \<Rightarrow> int \<Rightarrow> transaction" where
  "local_tx h n p = (example_tx h n p)\<lparr>Sender := 1\<rparr>"

text \<open>
  Priced lists. In \<open>priced_live\<close> both entries are in the pool and the cheaper one is local.
  In \<open>priced_stale_local\<close> the cheapest entry is local and has left the pool, counted by
  \<open>stales\<close>. In \<open>priced_five\<close> five remote transactions were put and the dearest has left
  the pool. Each heap is the slice that \<^verbatim>\<open>Put\<close> builds from its entries in this order.
\<close>

definition priced_live :: txPricedList where
  "priced_live =
     \<lparr>all_txs = [21 \<mapsto> local_tx 21 0 5, 22 \<mapsto> example_tx 22 0 10],
      price_items = [local_tx 21 0 5, example_tx 22 0 10],
      stales = 0\<rparr>"

definition priced_stale_local :: txPricedList where
  "priced_stale_local =
     \<lparr>all_txs = [22 \<mapsto> example_tx 22 0 10, 23 \<mapsto> example_tx 23 0 20, 24 \<mapsto> example_tx 24 0 30],
      price_items = [local_tx 21 0 5, example_tx 22 0 10, example_tx 23 0 20, example_tx 24 0 30],
      stales = 1\<rparr>"

definition priced_five :: txPricedList where
  "priced_five =
     \<lparr>all_txs = [31 \<mapsto> example_tx 31 0 10, 32 \<mapsto> example_tx 32 0 20, 33 \<mapsto> example_tx 33 0 30,
                 34 \<mapsto> example_tx 34 0 40],
      price_items = [example_tx 31 0 10, example_tx 32 0 20, example_tx 33 0 30,
                     example_tx 34 0 40, example_tx 35 0 50],
      stales = 1\<rparr>"

text \<open>The map of nonces 5, 6, 7 after \<^verbatim>\<open>Flatten\<close>: the cache is present.\<close>

definition example_cached_map :: txSortedMap where
  "example_cached_map =
     example_map\<lparr>cache := Some [example_tx 15 5 10, example_tx 16 6 10, example_tx 17 7 10]\<rparr>"

lemma example_cached_map_simps [simp]:
  "items example_cached_map = items example_map" "index example_cached_map = [5, 6, 7]"
  "cache example_cached_map = Some [example_tx 15 5 10, example_tx 16 6 10, example_tx 17 7 10]"
  by (simp_all add: example_cached_map_def)

lemma is_heap_example: "is_heap [5, 6, 7 :: 64 word]"
  by (auto simp: is_heap_def less_Suc_eq)

lemma cache_ok_example_cached_map: "cache_ok example_cached_map"
  unfolding cache_ok_def example_cached_map_simps ascending_keys_example_map
  by (simp add: List.map_filter_simps)

text \<open>
  A codec for examples: payloads of fewer than 256 bytes, each framed by its length in
  one byte. The pool of the example holds three such payloads under two accounts.
\<close>

definition frame_enc :: "8 word list \<Rightarrow> 8 word list" where
  "frame_enc payload = of_nat (length payload) # payload"


definition example_pool_txs :: "160 word \<rightharpoonup> 8 word list list" where
  "example_pool_txs = [5 \<mapsto> [[170, 187], [204]], 6 \<mapsto> [[7]]]"

section \<open>Replacement by price: \<^verbatim>\<open>txList.Add\<close>\<close>

lemma big_Div_100: "big_Div x 100 = x div 100"
  by (simp add: big_Div_def)

lemma Add_decision:
  assumes "txSortedMap_Get (txs l) (Nonce tx) = Some old"
  shows "fst (fst (txList_Add tx priceBump l)) \<longleftrightarrow>
           GasPrice old < GasPrice tx \<and>
           (GasPrice old * bump_multiplier priceBump) div 100 \<le> GasPrice tx"
  using assms by (auto simp: txList_Add_def Let_def big_Div_100)

lemma Add_rejected_unchanged:
  assumes "\<not> fst (fst (txList_Add tx priceBump l))"
  shows "txList_Add tx priceBump l = ((False, None), l)"
  using assms by (auto simp: txList_Add_def Let_def split: option.splits if_splits)

lemma Add_accepted_returns_old:
  assumes "fst (fst (txList_Add tx priceBump l))"
  shows "fst (txList_Add tx priceBump l) = (True, txSortedMap_Get (txs l) (Nonce tx))"
  using assms by (auto simp: txList_Add_def Let_def split: option.splits if_splits)

text \<open>As long as \<open>100 + priceBump\<close> fits into an \<^verbatim>\<open>int64\<close>, the multiplier is exact.\<close>

lemma bump_multiplier_exact:
  assumes "uint priceBump + 100 < 2 ^ 63"
  shows "bump_multiplier priceBump = 100 + uint priceBump"
proof -
  have u: "uint (100 + priceBump) = 100 + uint priceBump"
    using assms by (simp add: uint_word_ariths take_bit_eq_mod)
  have "sint (100 + priceBump) = signed_take_bit 63 (uint (100 + priceBump))"
    by (simp add: sint_uint)
  also have "\<dots> = 100 + uint priceBump"
    unfolding u using assms by (intro signed_take_bit_int_eq_self) simp_all
  finally show ?thesis by (simp add: bump_multiplier_def)
qed

text \<open>
  Within that range the decision of \<^verbatim>\<open>Add\<close> on an occupied nonce is the one of the
  specification, with the truncating division, and the results are as stated there.
\<close>

lemma Add_replace_truncating:
  assumes "txSortedMap_Get (txs l) (Nonce tx) = Some old"
    and "uint priceBump + 100 < 2 ^ 63"
  shows "fst (fst (txList_Add tx priceBump l)) \<longleftrightarrow>
           GasPrice old < GasPrice tx \<and>
           (GasPrice old * (100 + uint priceBump)) div 100 \<le> GasPrice tx"
  using Add_decision [OF assms(1)] bump_multiplier_exact [OF assms(2)] by simp

text \<open>The first transaction added to a new list.\<close>

lemma up_0: "up lt h 0 = h"
  by (simp add: up.simps)

lemma heap_Push_Nil: "heap_Push lt [] x = [x]"
  by (simp add: heap_Push_def up_0)

lemma Add_into_new:
  "txList_Add (example_tx h n p) b (newTxList s) =
     ((True, None),
      \<lparr>strict = s, txs = \<lparr>items = [n \<mapsto> example_tx h n p], index = [n], cache = None\<rparr>,
       costcap = (if 0 < p * 21000 then p * 21000 else 0), gascap = 21000\<rparr>)"
  by (simp add: txList_Add_def newTxList_def newTxSortedMap_def txSortedMap_Get_def
      txSortedMap_Put_def heap_Push_Nil Cost_def Let_def)

lemma scenario_S1:
  defines "l0 \<equiv> snd (txList_Add (example_tx 1 5 100) 10 (newTxList True))"
  shows "txList_Add (example_tx 2 5 109) 10 l0 = ((False, None), l0)"
    and "fst (txList_Add (example_tx 3 5 110) 10 l0) = (True, Some (example_tx 1 5 100))"
  unfolding l0_def Add_into_new snd_conv
  by (simp_all add: txList_Add_def txSortedMap_Get_def txSortedMap_Put_def Let_def big_Div_100
      bump_multiplier_def)

text \<open>
  C1. \<^verbatim>\<open>Add\<close> on an occupied nonce is claimed to accept exactly when the new price is above
  the old one and reaches \<open>old * (100 + priceBump) div 100\<close>, for every \<^verbatim>\<open>priceBump\<close>.
  The code converts the unsigned \<^verbatim>\<open>priceBump\<close> to \<^verbatim>\<open>int64\<close> before adding 100. At
  \<open>priceBump = 2 ^ 64 - 100\<close> the multiplier wraps around to 0 and the threshold is 0: a
  replacement at price 101 of a transaction at price 100 is accepted, although the claimed
  threshold \<open>100 * (100 + priceBump) div 100 = 2 ^ 64\<close> is far above 101.
\<close>

theorem Add_bump_wraps_around:
  "fst (txList_Add (example_tx 2 5 101) 18446744073709551516
          (snd (txList_Add (example_tx 1 5 100) 18446744073709551516 (newTxList True))))
     = (True, Some (example_tx 1 5 100))
   \<and> \<not> ((100 * (100 + uint (18446744073709551516 :: 64 word))) div 100 \<le> (101 :: int))"
  unfolding Add_into_new snd_conv
  by (simp add: txList_Add_def txSortedMap_Get_def txSortedMap_Put_def Let_def big_Div_100
      bump_multiplier_def)

text \<open>
  C2 (as stated). \<^verbatim>\<open>Add\<close> on an occupied nonce is claimed to accept exactly when the new
  price is above the old one and \<open>new * 100 \<ge> old * (100 + bump)\<close> in exact arithmetic.
  With bump 10, an old price of 15 and a new price of 16 the code accepts (its threshold is
  \<open>15 * 110 div 100 = 16\<close>), while \<open>16 * 100 < 15 * 110\<close>.
\<close>

theorem Add_exact_margin_counterexample:
  "fst (fst (txList_Add (example_tx 2 5 16) 10
               (snd (txList_Add (example_tx 1 5 15) 10 (newTxList True)))))
   \<and> \<not> ((15 :: int) < 16 \<and> (15 :: int) * (100 + uint (10 :: 64 word)) \<le> 16 * 100)"
  unfolding Add_into_new snd_conv
  by (simp add: txList_Add_def txSortedMap_Get_def txSortedMap_Put_def Let_def big_Div_100
      bump_multiplier_def)

text \<open>
  C2 (amended). For a \<^verbatim>\<open>priceBump\<close> with \<open>100 + priceBump < 2 ^ 63\<close>, \<^verbatim>\<open>Add\<close> on a nonce
  occupied by \<open>old\<close> accepts exactly when the new price is above the old one and
  \<open>(new + 1) * 100 > old * (100 + priceBump)\<close> in exact integer arithmetic, which is the
  truncated threshold \<open>old * (100 + priceBump) div 100 \<le> new\<close>.
\<close>

theorem Add_replace_exact:
  assumes "txSortedMap_Get (txs l) (Nonce tx) = Some old"
    and "uint priceBump + 100 < 2 ^ 63"
  shows "fst (fst (txList_Add tx priceBump l)) \<longleftrightarrow>
           GasPrice old < GasPrice tx \<and>
           GasPrice old * (100 + uint priceBump) < (GasPrice tx + 1) * 100"
proof -
  have "(x div 100 \<le> y) = (x < (y + 1) * 100)" for x y :: int
    by auto
  then show ?thesis
    using Add_replace_truncating [OF assms] by simp
qed

theorem Add_replace_exact_witness:
  "txSortedMap_Get (txs (snd (txList_Add (example_tx 1 5 15) 10 (newTxList True))))
      (Nonce (example_tx 2 5 16)) = Some (example_tx 1 5 15)
   \<and> uint (10 :: 64 word) + 100 < 2 ^ 63
   \<and> (fst (fst (txList_Add (example_tx 2 5 16) 10
                  (snd (txList_Add (example_tx 1 5 15) 10 (newTxList True)))))
        \<longleftrightarrow> GasPrice (example_tx 1 5 15) < GasPrice (example_tx 2 5 16) \<and>
            GasPrice (example_tx 1 5 15) * (100 + uint (10 :: 64 word))
              < (GasPrice (example_tx 2 5 16) + 1) * 100)"
proof -
  let ?l = "snd (txList_Add (example_tx 1 5 15) 10 (newTxList True))"
  have g: "txSortedMap_Get (txs ?l) (Nonce (example_tx 2 5 16)) = Some (example_tx 1 5 15)"
    by (simp add: Add_into_new txSortedMap_Get_def)
  have b: "uint (10 :: 64 word) + 100 < 2 ^ 63"
    by simp
  show ?thesis
    using g b Add_replace_exact [OF g b] by blast
qed

section \<open>Filtering twice: \<^verbatim>\<open>txList.Filter\<close>\<close>

text \<open>
  C7. Whatever the list, the limits and the orders in which the map is ranged over, a second
  \<^verbatim>\<open>Filter\<close> with the same limits right after the first returns two empty slices (and
  leaves the list as the first call left it).
\<close>

theorem Filter_twice_empty:
  "txList_Filter rk3 rk4 costLimit gasLimit (snd (txList_Filter rk1 rk2 costLimit gasLimit l))
     = (([], []), snd (txList_Filter rk1 rk2 costLimit gasLimit l))"
  by (auto simp: txList_Filter_def Let_def split: prod.splits)

section \<open>Removing an absent nonce: \<^verbatim>\<open>txSortedMap.Remove\<close>\<close>

text \<open>
  C10. For a nonce with no entry in \<open>items\<close>, \<^verbatim>\<open>Remove\<close> returns false and the whole
  state (items, index and cache, a present cache included) is the one before the call.
\<close>

theorem Remove_absent_unchanged:
  "items m nonce = None \<Longrightarrow> txSortedMap_Remove nonce m = (False, m)"
  by (simp add: txSortedMap_Remove_def)

theorem Remove_absent_unchanged_witness:
  "items \<lparr>items = [5 \<mapsto> example_tx 1 5 100], index = [5],
          cache = Some [example_tx 1 5 100]\<rparr> 7 = None
   \<and> txSortedMap_Remove 7 \<lparr>items = [5 \<mapsto> example_tx 1 5 100], index = [5],
          cache = Some [example_tx 1 5 100]\<rparr>
     = (False, \<lparr>items = [5 \<mapsto> example_tx 1 5 100], index = [5],
          cache = Some [example_tx 1 5 100]\<rparr>)"
proof -
  let ?m = "\<lparr>items = [5 \<mapsto> example_tx 1 5 100], index = [5 :: 64 word],
              cache = Some [example_tx 1 5 100]\<rparr>"
  have a: "items ?m 7 = None"
    by simp
  show ?thesis
    using a Remove_absent_unchanged [OF a] by simp
qed

section \<open>\<^verbatim>\<open>txSortedMap.Filter\<close> against its reference\<close>

lemma range_ok_ascending_keys: "range_ok ascending_keys"
  by (simp add: range_ok_def ascending_keys_def)

lemma filtered_out_delete:
  "n \<noteq> k \<Longrightarrow> filtered_out filter_fn (its(k := None)) n = filtered_out filter_fn its n"
  by (simp add: filtered_out_def)

lemma map_filter_cong_set:
  "(\<And>x. x \<in> set xs \<Longrightarrow> f x = g x) \<Longrightarrow> List.map_filter f xs = List.map_filter g xs"
proof (induction xs)
  case Nil
  show ?case by (simp add: List.map_filter_simps)
next
  case (Cons a xs)
  have "f a = g a" and "List.map_filter f xs = List.map_filter g xs"
    using Cons by simp_all
  then show ?case by (simp add: List.map_filter_simps split: option.splits)
qed

lemma Filter_loop_result:
  assumes "distinct ks"
  shows "Filter_loop filter_fn ks (removed, its) =
           (removed @ List.map_filter (filtered_out filter_fn its) ks,
            (\<lambda>n. if n \<in> set ks then kept filter_fn its n else its n))"
  using assms
proof (induction ks arbitrary: removed its)
  case Nil
  then show ?case by (simp add: List.map_filter_simps)
next
  case (Cons k ks)
  then have k: "k \<notin> set ks" and d: "distinct ks"
    by simp_all
  have same: "List.map_filter (filtered_out filter_fn (its(k := None))) ks
                = List.map_filter (filtered_out filter_fn its) ks"
    using k by (intro map_filter_cong_set filtered_out_delete) auto
  have kept_same: "kept filter_fn (its(k := None)) n = kept filter_fn its n" if "n \<in> set ks" for n
    using that k by (auto simp: kept_def)
  show ?case
  proof (cases "filtered_out filter_fn its k")
    case None
    then have step: "Filter_loop filter_fn (k # ks) (removed, its) = Filter_loop filter_fn ks (removed, its)"
      by (auto simp: filtered_out_def split: option.splits if_splits)
    have "kept filter_fn its k = its k"
      using None by (auto simp: filtered_out_def kept_def split: option.splits if_splits)
    then show ?thesis
      unfolding step Cons.IH [OF d] using None
      by (auto simp: List.map_filter_simps fun_eq_iff)
  next
    case (Some tx)
    then have step: "Filter_loop filter_fn (k # ks) (removed, its)
                     = Filter_loop filter_fn ks (removed @ [tx], its(k := None))"
      by (auto simp: filtered_out_def split: option.splits if_splits)
    have "kept filter_fn its k = None"
      using Some by (auto simp: filtered_out_def kept_def split: option.splits if_splits)
    then show ?thesis
      unfolding step Cons.IH [OF d] same using Some k kept_same
      by (auto simp: List.map_filter_simps fun_eq_iff)
  qed
qed


lemma set_map_filter_filtered_out:
  "set (List.map_filter (filtered_out filter_fn its) ks)
     = {tx. \<exists>n \<in> set ks. its n = Some tx \<and> filter_fn tx}"
proof (induction ks)
  case Nil
  show ?case by (simp add: List.map_filter_simps)
next
  case (Cons k ks)
  show ?case
  proof (cases "filtered_out filter_fn its k")
    case None
    then have "\<not> (\<exists>tx. its k = Some tx \<and> filter_fn tx)"
      by (auto simp: filtered_out_def)
    with None Cons show ?thesis
      by (auto simp: List.map_filter_simps)
  next
    case (Some tx)
    then have "its k = Some tx" "filter_fn tx"
      by (auto simp: filtered_out_def split: option.splits if_splits)
    with Some Cons show ?thesis
      by (auto simp: List.map_filter_simps)
  qed
qed

lemma txSortedMap_Filter_result:
  assumes "range_ok rk" and "finite (dom (items m))"
  shows "fst (txSortedMap_Filter rk filter_fn m)
           = List.map_filter (filtered_out filter_fn (items m)) (rk (items m))"
    and "items (snd (txSortedMap_Filter rk filter_fn m)) = kept filter_fn (items m)"
proof -
  have d: "distinct (rk (items m))" and s: "set (rk (items m)) = dom (items m)"
    using assms by (auto simp: range_ok_def)
  have k: "(\<lambda>n. if n \<in> set (rk (items m)) then kept filter_fn (items m) n else items m n)
             = kept filter_fn (items m)"
    unfolding s by (auto simp: fun_eq_iff kept_def dom_def)
  show "fst (txSortedMap_Filter rk filter_fn m)
           = List.map_filter (filtered_out filter_fn (items m)) (rk (items m))"
    by (simp add: txSortedMap_Filter_def Filter_loop_result [OF d])
  show "items (snd (txSortedMap_Filter rk filter_fn m)) = kept filter_fn (items m)"
    by (simp add: txSortedMap_Filter_def Filter_loop_result [OF d] k)
qed

lemma txSortedMap_Filter_set:
  assumes "range_ok rk" and "finite (dom (items m))"
  shows "set (fst (txSortedMap_Filter rk filter_fn m)) = {tx \<in> ran (items m). filter_fn tx}"
proof -
  have s: "set (rk (items m)) = dom (items m)"
    using assms by (auto simp: range_ok_def)
  show ?thesis
    unfolding txSortedMap_Filter_result(1) [OF assms] set_map_filter_filtered_out s
    by (auto simp: ran_def dom_def)
qed

lemma distinct_map_filter:
  assumes "distinct ks" and "inj_on f {k \<in> set ks. f k \<noteq> None}"
  shows "distinct (List.map_filter f ks)"
proof -
  have "inj_on (the \<circ> f) {k \<in> set ks. f k \<noteq> None}"
    using assms(2) by (auto simp: inj_on_def)
  then show ?thesis
    using assms(1) by (auto simp: List.map_filter_def distinct_map)
qed

lemma txSortedMap_Filter_distinct:
  assumes "range_ok rk" and "finite (dom (items m))" and "keyed m"
  shows "distinct (fst (txSortedMap_Filter rk filter_fn m))"
proof -
  have d: "distinct (rk (items m))"
    using assms by (auto simp: range_ok_def)
  have "inj_on (filtered_out filter_fn (items m))
          {k \<in> set (rk (items m)). filtered_out filter_fn (items m) k \<noteq> None}"
    using assms(3)
    by (auto simp: inj_on_def keyed_def filtered_out_def split: option.splits if_splits)
  then show ?thesis
    unfolding txSortedMap_Filter_result(1) [OF assms(1,2)]
    by (intro distinct_map_filter d)
qed

lemma ran_delete_above:
  assumes "\<And>n t. its n = Some t \<Longrightarrow> Nonce t = n"
  shows "{t \<in> ran (its(k := None)). k < Nonce t} = {t \<in> ran its. k < Nonce t}"
proof (intro set_eqI iffI)
  fix t
  assume "t \<in> {t \<in> ran (its(k := None)). k < Nonce t}"
  then obtain n where "its n = Some t" and "k < Nonce t"
    by (auto simp: ran_def split: if_splits)
  then show "t \<in> {t \<in> ran its. k < Nonce t}"
    by (auto simp: ran_def)
next
  fix t
  assume "t \<in> {t \<in> ran its. k < Nonce t}"
  then obtain n where n: "its n = Some t" and lt: "k < Nonce t"
    by (auto simp: ran_def)
  have "Nonce t = n"
    using assms n by simp
  then have "n \<noteq> k"
    using lt by auto
  then have "(its(k := None)) n = Some t"
    using n by simp
  then have "t \<in> ran (its(k := None))"
    unfolding ran_def by blast
  then show "t \<in> {t \<in> ran (its(k := None)). k < Nonce t}"
    using lt by simp
qed

lemma kept_above_restrict:
  assumes "\<And>n t. its n = Some t \<Longrightarrow> Nonce t = n"
  shows "kept (\<lambda>t. k < Nonce t) (its(k := None)) = its |` {n. n < k}"
proof
  fix n
  show "kept (\<lambda>t. k < Nonce t) (its(k := None)) n = (its |` {n. n < k}) n"
  proof (cases "its n")
    case None
    then show ?thesis by (simp add: kept_def restrict_map_def)
  next
    case (Some t)
    then have "Nonce t = n" using assms by simp
    then show ?thesis
      using Some by (auto simp: kept_def restrict_map_def)
  qed
qed

lemma ran_restrict_below:
  assumes "\<And>n t. its n = Some t \<Longrightarrow> Nonce t = n"
  shows "\<forall>t \<in> ran (its |` {n. n < k}). Nonce t < k"
proof
  fix t
  assume "t \<in> ran (its |` {n. n < k})"
  then obtain n where "n < k" and "its n = Some t"
    by (auto simp: ran_def restrict_map_def split: if_splits)
  then show "Nonce t < k"
    using assms by auto
qed

section \<open>Removal in strict mode: \<^verbatim>\<open>txList.Remove\<close>\<close>

text \<open>
  C4. In a strict list that stores each transaction under its nonce and holds one with the
  nonce of \<open>tx\<close> (the code looks at nothing else of \<open>tx\<close>), \<^verbatim>\<open>Remove\<close> of \<open>tx\<close> returns true; the invalidated transactions are, each once, exactly
  the stored ones with a nonce above that of \<open>tx\<close>; what is left are the entries with a
  nonce below it, unchanged, so no transaction with that nonce or a higher one remains.
  This holds for every order in which the range loop of \<^verbatim>\<open>Filter\<close> visits the map.
\<close>

theorem Remove_strict_invalidates:
  assumes "strict l" and "range_ok rk" and "finite (dom (items (txs l)))" and "keyed (txs l)"
    and "items (txs l) (Nonce tx) = Some stored"
  shows "case txList_Remove rk tx l of
           ((found, invalids), l') \<Rightarrow>
             found \<and>
             set invalids = {t \<in> ran (items (txs l)). Nonce tx < Nonce t} \<and>
             distinct invalids \<and>
             items (txs l') = items (txs l) |` {n. n < Nonce tx} \<and>
             (\<forall>t \<in> ran (items (txs l')). Nonce t < Nonce tx)"
proof -
  define m1 where "m1 = snd (txSortedMap_Remove (Nonce tx) (txs l))"
  define R where "R = txSortedMap_Filter rk (\<lambda>tx'. Nonce tx < Nonce tx') m1"
  have key: "\<And>n t. items (txs l) n = Some t \<Longrightarrow> Nonce t = n"
    using assms(4) by (simp add: keyed_def)
  have rem: "txSortedMap_Remove (Nonce tx) (txs l) = (True, m1)"
    using assms(5) by (simp add: m1_def txSortedMap_Remove_def)
  have it1: "items m1 = (items (txs l))(Nonce tx := None)"
    using assms(5) by (simp add: m1_def txSortedMap_Remove_def)
  have fin1: "finite (dom (items m1))"
    using assms(3) by (simp add: it1)
  have keyed1: "keyed m1"
    unfolding keyed_def it1 using key by (simp split: if_splits)
  have res: "txList_Remove rk tx l = ((True, fst R), l\<lparr>txs := snd R\<rparr>)"
    using assms(1) by (simp add: txList_Remove_def Let_def rem R_def split: prod.splits)
  have inv: "set (fst R) = {t \<in> ran (items (txs l)). Nonce tx < Nonce t}"
    unfolding R_def txSortedMap_Filter_set [OF assms(2) fin1] it1
    by (rule ran_delete_above [OF key])
  have dis: "distinct (fst R)"
    unfolding R_def by (rule txSortedMap_Filter_distinct [OF assms(2) fin1 keyed1])
  have its: "items (snd R) = items (txs l) |` {n. n < Nonce tx}"
    unfolding R_def txSortedMap_Filter_result(2) [OF assms(2) fin1] it1
    by (rule kept_above_restrict [OF key])
  have below: "\<forall>t \<in> ran (items (snd R)). Nonce t < Nonce tx"
    unfolding its by (rule ran_restrict_below [OF key])
  show ?thesis
    unfolding res using inv dis its below by simp
qed

theorem Remove_strict_invalidates_witness:
  "strict example_list \<and>
   range_ok (ascending_keys :: (64 word \<rightharpoonup> transaction) \<Rightarrow> 64 word list) \<and> finite (dom (items (txs example_list))) \<and>
   keyed (txs example_list) \<and>
   items (txs example_list) (Nonce (example_tx 16 6 10)) = Some (example_tx 16 6 10) \<and>
   (case txList_Remove ascending_keys (example_tx 16 6 10) example_list of
      ((found, invalids), l') \<Rightarrow>
        found \<and>
        set invalids = {t \<in> ran (items (txs example_list)). Nonce (example_tx 16 6 10) < Nonce t} \<and>
        distinct invalids \<and>
        items (txs l') = items (txs example_list) |` {n. n < Nonce (example_tx 16 6 10)} \<and>
        (\<forall>t \<in> ran (items (txs l')). Nonce t < Nonce (example_tx 16 6 10)))"
proof -
  have a: "strict example_list" by simp
  have b: "range_ok (ascending_keys :: (64 word \<rightharpoonup> transaction) \<Rightarrow> 64 word list)"
    by (rule range_ok_ascending_keys)
  have c: "finite (dom (items (txs example_list)))" by simp
  have d: "keyed (txs example_list)" by (simp add: keyed_example_map)
  have e: "items (txs example_list) (Nonce (example_tx 16 6 10)) = Some (example_tx 16 6 10)"
    by simp
  show ?thesis
    by (intro conjI a b c d e Remove_strict_invalidates [OF a b c d e])
qed

section \<open>Capping by count: \<^verbatim>\<open>txSortedMap.Cap\<close>\<close>

lemma sort_index_ascending:
  assumes "index_agrees m"
  shows "sort (index m) = ascending_keys (items m)"
proof -
  have "sorted (sort (index m))" and "distinct (sort (index m))"
    and "set (sort (index m)) = dom (items m)"
    using assms by (simp_all add: index_agrees_def)
  moreover have "finite (dom (items m))"
    using assms by (metis index_agrees_def List.finite_set)
  ultimately show ?thesis
    unfolding ascending_keys_def
    by (intro sorted_distinct_set_unique) simp_all
qed

lemma Cap_loop_result:
  assumes "distinct ks" and "n \<le> j" and "j \<le> length ks"
    and "\<And>i. i < j \<Longrightarrow> its (ks ! i) \<noteq> None"
  shows "Cap_loop (int n) ks (int j) (drops, its) =
           Some (drops @ rev (List.map_filter its (drop n (take j ks))),
                 (\<lambda>k. if k \<in> set (drop n (take j ks)) then None else its k))"
  using assms
proof (induction "j - n" arbitrary: j drops its)
  case 0
  then have "j = n" by simp
  then show ?case
    by (simp add: Cap_loop.simps List.map_filter_simps)
next
  case (Suc d)
  then obtain j' where j: "j = Suc j'" and nj': "n \<le> j'" and d: "d = j' - n"
    by (cases j) auto
  have lt: "j' < length ks"
    using Suc.prems j by simp
  from Suc.prems(4) [of j'] obtain tx where tx: "its (ks ! j') = Some tx"
    using j by auto
  have step: "Cap_loop (int n) ks (int j) (drops, its)
              = Cap_loop (int n) ks (int j') (drops @ [tx], its(ks ! j' := None))"
    using nj' lt tx j by (subst Cap_loop.simps) (simp add: nat_diff_distrib)
  have pres: "(its(ks ! j' := None)) (ks ! i) \<noteq> None" if "i < j'" for i
  proof -
    have "ks ! i \<noteq> ks ! j'"
      using that lt Suc.prems(1) by (simp add: nth_eq_iff_index_eq)
    then show ?thesis
      using Suc.prems(4) [of i] that j by simp
  qed
  have seg: "drop n (take j ks) = drop n (take j' ks) @ [ks ! j']"
    using lt nj' j by (simp add: take_Suc_conv_app_nth)
  have notin: "ks ! j' \<notin> set (drop n (take j' ks))"
  proof
    assume "ks ! j' \<in> set (drop n (take j' ks))"
    then have "ks ! j' \<in> set (take j' ks)"
      by (rule in_set_dropD)
    then obtain i where "i < j'" "ks ! i = ks ! j'"
      using lt by (auto simp: in_set_conv_nth)
    then show False
      using lt Suc.prems(1) by (simp add: nth_eq_iff_index_eq)
  qed
  have mf: "List.map_filter (its(ks ! j' := None)) (drop n (take j' ks))
            = List.map_filter its (drop n (take j' ks))"
    using notin by (intro map_filter_cong_set) auto
  have IH: "Cap_loop (int n) ks (int j') (drops @ [tx], its(ks ! j' := None)) =
           Some ((drops @ [tx]) @ rev (List.map_filter (its(ks ! j' := None)) (drop n (take j' ks))),
                 (\<lambda>k. if k \<in> set (drop n (take j' ks)) then None else (its(ks ! j' := None)) k))"
    using Suc.hyps(1) [of j' "its(ks ! j' := None)" "drops @ [tx]"] d Suc.prems(1) nj' pres lt
    by simp
  show ?case
    unfolding step IH mf seg
    by (auto simp: List.map_filter_def tx fun_eq_iff)
qed

lemma ascending_keys_props:
  assumes "finite (dom its)"
  shows "set (ascending_keys its) = dom its" and "distinct (ascending_keys its)"
    and "sorted_wrt (<) (ascending_keys its)" and "length (ascending_keys its) = card (dom its)"
  using assms by (simp_all add: ascending_keys_def strict_sorted_iff)

lemma map_filter_present:
  assumes "set ks \<subseteq> dom its"
  shows "length (List.map_filter its ks) = length ks"
    and "(\<And>n tx. its n = Some tx \<Longrightarrow> Nonce tx = n) \<Longrightarrow> map Nonce (List.map_filter its ks) = ks"
  using assms by (induction ks) (auto simp: List.map_filter_simps)

text \<open>
  C8 (amended). For a map whose index holds its keys, each once, whose transactions are
  stored under their nonces and whose cache, if present, is the sorted content, and for a
  count \<open>0 \<le> n < |items|\<close>: \<^verbatim>\<open>Cap\<close> returns the \<open>|items| - n\<close> transactions of highest
  nonce in descending nonce order (highest first) and leaves exactly the \<open>n\<close> entries of
  lowest nonce, unchanged.
\<close>

theorem Cap_drops_highest_descending:
  assumes "index_agrees m" and "keyed m" and "cache_ok m"
    and "0 \<le> threshold" and "threshold < int (card (dom (items m)))"
  shows "case txSortedMap_Cap threshold m of
           None \<Rightarrow> False
         | Some (drops, m') \<Rightarrow>
             drops = rev (List.map_filter (items m) (drop (nat threshold) (ascending_keys (items m)))) \<and>
             map Nonce drops = rev (drop (nat threshold) (ascending_keys (items m))) \<and>
             sorted_wrt (>) (map Nonce drops) \<and>
             length drops = card (dom (items m)) - nat threshold \<and>
             items m' = items m |` set (take (nat threshold) (ascending_keys (items m))) \<and>
             card (dom (items m')) = nat threshold"
proof -
  define ks where "ks = ascending_keys (items m)"
  define n where "n = nat threshold"
  define N where "N = card (dom (items m))"
  define drops where "drops = rev (List.map_filter (items m) (drop n ks))"
  define its' where "its' = (\<lambda>k. if k \<in> set (drop n (take N ks)) then None else items m k)"
  have fin: "finite (dom (items m))"
    using assms(1) by (metis index_agrees_def List.finite_set)
  have ks: "set ks = dom (items m)" "distinct ks" "sorted_wrt (<) ks" "length ks = N"
    unfolding ks_def N_def using ascending_keys_props [OF fin] by simp_all
  have key: "\<And>k tx. items m k = Some tx \<Longrightarrow> Nonce tx = k"
    using assms(2) by (simp add: keyed_def)
  have n: "threshold = int n" "n < N"
    using assms(4,5) by (simp_all add: n_def N_def)
  have present: "items m (ks ! i) \<noteq> None" if "i < N" for i
    using ks(1,4) that by (metis domIff nth_mem)
  have loop: "Cap_loop threshold ks (int N) ([], items m) = Some (drops, its')"
    unfolding n(1) drops_def its'_def
    using Cap_loop_result [OF ks(2), of n N "items m" "[]"] n(2) ks(4) present by simp
  have sub: "set (drop n ks) \<subseteq> dom (items m)"
    using ks(1) set_drop_subset [of n ks] by simp
  have len: "length drops = N - n"
    unfolding drops_def using map_filter_present(1) [OF sub] ks(4) by simp
  have nonces: "map Nonce drops = rev (drop n ks)"
    unfolding drops_def rev_map [symmetric] using map_filter_present(2) [OF sub key] by (simp add: rev_map)
  have desc: "sorted_wrt (>) (map Nonce drops)"
    unfolding nonces sorted_wrt_rev using ks(3) by (simp add: sorted_wrt_drop)
  have split: "set ks = set (take n ks) \<union> set (drop n ks)" "set (take n ks) \<inter> set (drop n ks) = {}"
    using ks(2) by (metis append_take_drop_id set_append, metis append_take_drop_id distinct_append)
  have its: "its' = items m |` set (take n ks)"
  proof
    fix k
    show "its' k = (items m |` set (take n ks)) k"
      using split ks(1,4) by (auto simp: its'_def restrict_map_def domIff)
  qed
  have "dom its' = set (take n ks)"
    unfolding its using ks(1) by (auto simp: restrict_map_def dom_def split: if_splits dest: in_set_takeD)
  then have card: "card (dom its') = n"
    using ks(2,4) n(2) by (simp add: distinct_card)
  have cache_len: "length drops \<le> length c" if "cache m = Some c" for c
  proof -
    have "c = List.map_filter (items m) ks"
      using assms(3) that by (simp add: cache_ok_def ks_def)
    then have "length c = N"
      using map_filter_present(1) [of ks "items m"] ks(1,4) by simp
    then show ?thesis using len by simp
  qed
  have sorted_idx: "sort (index m) = ks"
    unfolding ks_def by (rule sort_index_ascending [OF assms(1)])
  have notshort: "\<not> int (card (dom (items m))) \<le> threshold"
    using assms(5) by simp
  show ?thesis
  proof (cases "cache m")
    case None
    then show ?thesis
      using notshort loop len nonces desc its card
      by (simp add: txSortedMap_Cap_def Let_def sorted_idx N_def [symmetric] drops_def [symmetric] n_def [symmetric] ks_def [symmetric])
  next
    case (Some c)
    then show ?thesis
      using notshort loop len nonces desc its card cache_len [OF Some]
      by (simp add: txSortedMap_Cap_def Let_def sorted_idx N_def [symmetric] drops_def [symmetric] n_def [symmetric] ks_def [symmetric])
  qed
qed

theorem Cap_drops_highest_descending_witness:
  "index_agrees example_map \<and> keyed example_map \<and> cache_ok example_map \<and> (0 :: int) \<le> 1 \<and>
   1 < int (card (dom (items example_map))) \<and>
   (case txSortedMap_Cap 1 example_map of
      None \<Rightarrow> False
    | Some (drops, m') \<Rightarrow>
        drops = rev (List.map_filter (items example_map) (drop (nat 1) (ascending_keys (items example_map)))) \<and>
        map Nonce drops = rev (drop (nat 1) (ascending_keys (items example_map))) \<and>
        sorted_wrt (>) (map Nonce drops) \<and>
        length drops = card (dom (items example_map)) - nat 1 \<and>
        items m' = items example_map |` set (take (nat 1) (ascending_keys (items example_map))) \<and>
        card (dom (items m')) = nat 1)"
proof -
  have a: "index_agrees example_map" by (rule index_agrees_example_map)
  have b: "keyed example_map" by (rule keyed_example_map)
  have c: "cache_ok example_map" by (simp add: cache_ok_def)
  have d: "(0 :: int) \<le> 1" by simp
  have e: "1 < int (card (dom (items example_map)))" by simp
  show ?thesis
    by (intro conjI a b c d e Cap_drops_highest_descending [OF a b c d e])
qed

text \<open>
  C8 (as stated). The dropped transactions are claimed to come back in ascending nonce
  order. Capping the map with nonces 5, 6, 7 at one entry returns the transaction of nonce 7
  first and then the one of nonce 6.
\<close>

theorem Cap_ascending_counterexample:
  "map_option fst (txSortedMap_Cap 1 example_map) = Some [example_tx 17 7 10, example_tx 16 6 10]
   \<and> \<not> sorted (map Nonce [example_tx 17 7 10, example_tx 16 6 10])"
proof -
  have "Cap_loop 1 [5, 6, 7] 3 ([], items example_map)
        = Some ([example_tx 17 7 10, example_tx 16 6 10], (items example_map)(7 := None, 6 := None))"
    by (simp add: Cap_loop.simps)
  then show ?thesis
    by (simp add: txSortedMap_Cap_def Let_def)
qed

section \<open>The heap operations permute the slice\<close>

lemma mset_Swap [simp]: "i < length h \<Longrightarrow> j < length h \<Longrightarrow> mset (Swap h i j) = mset h"
  by (simp add: Swap_def mset_swap)

lemma mset_down_loop [simp]: "n \<le> length h \<Longrightarrow> i < n \<Longrightarrow> mset (fst (down_loop lt h i n)) = mset h"
proof (induction lt h i n rule: down_loop.induct)
  case (1 lt h i n)
  show ?case
    by (subst down_loop.simps) (use 1 in \<open>auto simp: Let_def\<close>)
qed

lemma mset_down [simp]: "n \<le> length h \<Longrightarrow> i < n \<Longrightarrow> mset (fst (down lt h i n)) = mset h"
proof -
  have "fst (down lt h i n) = fst (down_loop lt h i n)"
    by (simp add: down_def split: prod.splits)
  then show "n \<le> length h \<Longrightarrow> i < n \<Longrightarrow> mset (fst (down lt h i n)) = mset h"
    by simp
qed

lemma mset_up [simp]: "j < length h \<Longrightarrow> mset (up lt h j) = mset h"
proof (induction lt h j rule: up.induct)
  case (1 lt h j)
  have "(j - 1) div 2 < length h"
    using 1(2) by simp
  then show ?case
    by (subst up.simps) (use 1 in \<open>auto simp: Let_def\<close>)
qed

lemma mset_heap_Push [simp]: "mset (heap_Push lt h x) = add_mset x (mset h)"
  by (simp add: heap_Push_def)

lemma mset_foldl_heap_Push [simp]: "mset (foldl (heap_Push lt) h xs) = mset h + mset xs"
  by (induction xs arbitrary: h) simp_all

lemma mset_heap_Pop: 
  assumes "heap_Pop lt h = Some (x, h')"
  shows "mset h = add_mset x (mset h')"
proof -
  have ne: "h \<noteq> []"
    using assms by (auto simp: heap_Pop_def split: if_splits)
  define n where "n = length h - 1"
  define h2 where "h2 = fst (down lt (Swap h 0 n) 0 n)"
  have n: "n < length h" using ne by (simp add: n_def)
  have len: "length h2 = length h" by (simp add: h2_def)
  have "mset h2 = mset h"
  proof (cases "n = 0")
    case True
    then show ?thesis by (simp add: h2_def down_def down_loop.simps Swap_def)
  next
    case False
    have "0 < length h" using ne by simp
    then show ?thesis using False n unfolding h2_def by simp
  qed
  moreover have "h2 \<noteq> []" using len ne by auto
  then have "mset h2 = add_mset (last h2) (mset (butlast h2))"
    by (metis append_butlast_last_id mset.simps(2) mset_append union_mset_add_mset_right add.right_neutral mset.simps(1))
  moreover have "x = last h2" "h' = butlast h2"
    using assms ne by (simp_all add: heap_Pop_def Let_def h2_def n_def)
  ultimately show ?thesis by simp
qed

section \<open>Eviction by price: \<^verbatim>\<open>txPricedList.Discard\<close> and \<^verbatim>\<open>txPricedList.Cap\<close>\<close>

lemma heap_Pop_nonempty: "h \<noteq> [] \<Longrightarrow> \<exists>x h'. heap_Pop lt h = Some (x, h')"
  by (simp add: heap_Pop_def Let_def)

lemma Discard_loop_keeps:
  assumes "\<forall>t \<in> set dropped. \<not> is_local t"
  shows "case Discard_loop all_map is_local (its, st, cnt, dropped, save) of
           (its', st', cnt', dropped', save') \<Rightarrow>
             (\<forall>t \<in> set dropped'. \<not> is_local t) \<and>
             filter_mset (live_local all_map is_local) (mset its' + mset save')
               = filter_mset (live_local all_map is_local) (mset its + mset save)"
  using assms
proof (induction all_map is_local "(its, st, cnt, dropped, save)"
       arbitrary: its st cnt dropped save rule: Discard_loop.induct)
  case (1 all_map is_local its st cnt dropped save)
  show ?case
  proof (cases "length its > 0 \<and> cnt > 0")
    case False
    then show ?thesis
      using "1.prems" by (subst Discard_loop.simps) auto
  next
    case True
    then obtain tx its1 where pop: "heap_Pop price_Less its = Some (tx, its1)"
      using heap_Pop_nonempty [of its price_Less] by auto
    have ms: "mset its = add_mset tx (mset its1)"
      by (rule mset_heap_Pop [OF pop])
    consider (stale) "all_map (Hash tx) = None"
      | (loc) "all_map (Hash tx) \<noteq> None" "is_local tx"
      | (remote) "all_map (Hash tx) \<noteq> None" "\<not> is_local tx"
      by blast
    then show ?thesis
    proof cases
      case stale
      have step: "Discard_loop all_map is_local (its, st, cnt, dropped, save)
                  = Discard_loop all_map is_local (its1, st - 1, cnt, dropped, save)"
        using True pop stale by (subst Discard_loop.simps) simp
      show ?thesis
        unfolding step
        using "1.hyps"(1) [OF True pop refl stale "1.prems"] stale
        by (auto simp: ms live_local_def split: prod.splits)
    next
      case loc
      have step: "Discard_loop all_map is_local (its, st, cnt, dropped, save)
                  = Discard_loop all_map is_local (its1, st, cnt, dropped, save @ [tx])"
        using True pop loc by (subst Discard_loop.simps) auto
      show ?thesis
        unfolding step
        using "1.hyps"(2) [OF True pop refl loc(1) loc(2) "1.prems"]
        by (auto simp: ms split: prod.splits)
    next
      case remote
      have step: "Discard_loop all_map is_local (its, st, cnt, dropped, save)
                  = Discard_loop all_map is_local (its1, st, cnt - 1, dropped @ [tx], save)"
        using True pop remote by (subst Discard_loop.simps) auto
      have pre: "\<forall>t \<in> set (dropped @ [tx]). \<not> is_local t"
        using "1.prems" remote by simp
      show ?thesis
        unfolding step
        using "1.hyps"(3) [OF True pop refl remote(1) remote(2) pre] remote
        by (auto simp: ms live_local_def split: prod.splits)
    qed
  qed
qed


lemma PricedCap_loop_keeps:
  assumes "\<forall>t \<in> set dropped. \<not> is_local t"
  shows "case PricedCap_loop all_map threshold is_local (its, st, dropped, save) of
           (its', st', dropped', save') \<Rightarrow>
             (\<forall>t \<in> set dropped'. \<not> is_local t) \<and>
             filter_mset (live_local all_map is_local) (mset its' + mset save')
               = filter_mset (live_local all_map is_local) (mset its + mset save)"
  using assms
proof (induction all_map threshold is_local "(its, st, dropped, save)"
       arbitrary: its st dropped save rule: PricedCap_loop.induct)
  case (1 all_map threshold is_local its st dropped save)
  show ?case
  proof (cases "length its > 0")
    case False
    then show ?thesis
      using "1.prems" by (subst PricedCap_loop.simps) auto
  next
    case True
    then obtain tx its1 where pop: "heap_Pop price_Less its = Some (tx, its1)"
      using heap_Pop_nonempty [of its price_Less] by auto
    have ms: "mset its = add_mset tx (mset its1)"
      by (rule mset_heap_Pop [OF pop])
    consider (stale) "all_map (Hash tx) = None"
      | (floor) "all_map (Hash tx) \<noteq> None" "threshold \<le> GasPrice tx"
      | (loc) "all_map (Hash tx) \<noteq> None" "\<not> threshold \<le> GasPrice tx" "is_local tx"
      | (remote) "all_map (Hash tx) \<noteq> None" "\<not> threshold \<le> GasPrice tx" "\<not> is_local tx"
      by blast
    then show ?thesis
    proof cases
      case stale
      have step: "PricedCap_loop all_map threshold is_local (its, st, dropped, save)
                  = PricedCap_loop all_map threshold is_local (its1, st - 1, dropped, save)"
        using True pop stale by (subst PricedCap_loop.simps) simp
      show ?thesis
        unfolding step
        using "1.hyps"(1) [OF True pop refl stale "1.prems"] stale
        by (auto simp: ms live_local_def split: prod.splits)
    next
      case floor
      have step: "PricedCap_loop all_map threshold is_local (its, st, dropped, save)
                  = (its1, st, dropped, save @ [tx])"
        using True pop floor by (subst PricedCap_loop.simps) auto
      show ?thesis
        unfolding step using "1.prems" by (simp add: ms)
    next
      case loc
      have step: "PricedCap_loop all_map threshold is_local (its, st, dropped, save)
                  = PricedCap_loop all_map threshold is_local (its1, st, dropped, save @ [tx])"
        using True pop loc by (subst PricedCap_loop.simps) auto
      show ?thesis
        unfolding step
        using "1.hyps"(2) [OF True pop refl loc(1) loc(2) loc(3) "1.prems"]
        by (auto simp: ms split: prod.splits)
    next
      case remote
      have step: "PricedCap_loop all_map threshold is_local (its, st, dropped, save)
                  = PricedCap_loop all_map threshold is_local (its1, st, dropped @ [tx], save)"
        using True pop remote by (subst PricedCap_loop.simps) auto
      have pre: "\<forall>t \<in> set (dropped @ [tx]). \<not> is_local t"
        using "1.prems" remote by simp
      show ?thesis
        unfolding step
        using "1.hyps"(3) [OF True pop refl remote(1) remote(2) remote(3) pre] remote
        by (auto simp: ms live_local_def split: prod.splits)
    qed
  qed
qed

lemma Discard_panics_iff:
  "txPricedList_Discard max_cap cnt is_local l = None \<longleftrightarrow> cnt < 0 \<or> max_cap < cnt"
  by (simp add: txPricedList_Discard_def split: prod.splits)

lemma Discard_result:
  assumes "txPricedList_Discard max_cap cnt is_local l = Some (dropped, l')"
  shows "(\<forall>t \<in> set dropped. \<not> is_local t) \<and>
         filter_mset (live_local (all_txs l) is_local) (mset (price_items l'))
           = filter_mset (live_local (all_txs l) is_local) (mset (price_items l))"
  using assms
    Discard_loop_keeps [where dropped = "[]" and is_local = is_local and all_map = "all_txs l"
      and its = "price_items l" and st = "stales l" and cnt = cnt and save = "[]"]
  by (auto simp: txPricedList_Discard_def split: prod.splits if_splits)

lemma PricedCap_result:
  "(\<forall>t \<in> set (fst (txPricedList_Cap threshold is_local l)). \<not> is_local t) \<and>
   filter_mset (live_local (all_txs l) is_local) (mset (price_items (snd (txPricedList_Cap threshold is_local l))))
     = filter_mset (live_local (all_txs l) is_local) (mset (price_items l))"
  using PricedCap_loop_keeps [where dropped = "[]" and is_local = is_local and all_map = "all_txs l"
      and threshold = threshold and its = "price_items l" and st = "stales l" and save = "[]"]
  by (auto simp: txPricedList_Cap_def split: prod.splits)

text \<open>
  C5 (amended). Whatever the priced list, the count, the price threshold and the local
  predicate: \<^verbatim>\<open>Discard\<close> panics exactly when the count is negative or above the capacity
  the runtime allocates, and otherwise returns; no transaction in the slice returned by
  \<^verbatim>\<open>Discard\<close> or by \<^verbatim>\<open>Cap\<close> is local; and every local transaction that is still in the
  pool's map of all transactions is in the heap after the call as often as before it (when
  popped, it was pushed back).
\<close>

theorem eviction_spares_live_locals:
  "(txPricedList_Discard max_cap cnt is_local l = None \<longleftrightarrow> cnt < 0 \<or> max_cap < cnt) \<and>
   (\<forall>dropped l'. txPricedList_Discard max_cap cnt is_local l = Some (dropped, l') \<longrightarrow>
      (\<forall>tx \<in> set dropped. \<not> is_local tx) \<and>
      (\<forall>tx. live_local (all_txs l) is_local tx \<longrightarrow>
         count (mset (price_items l')) tx = count (mset (price_items l)) tx)) \<and>
   (\<forall>tx \<in> set (fst (txPricedList_Cap threshold is_local l)). \<not> is_local tx) \<and>
   (\<forall>tx. live_local (all_txs l) is_local tx \<longrightarrow>
      count (mset (price_items (snd (txPricedList_Cap threshold is_local l)))) tx
        = count (mset (price_items l)) tx)"
proof -
  have c: "count M' tx = count M tx" if "filter_mset P M' = filter_mset P M" and "P tx"
    for M M' :: "transaction multiset" and P tx
    using that by (metis count_filter_mset)
  have d: "(\<forall>tx \<in> set dropped. \<not> is_local tx) \<and>
           (\<forall>tx. live_local (all_txs l) is_local tx \<longrightarrow>
              count (mset (price_items l')) tx = count (mset (price_items l)) tx)"
    if "txPricedList_Discard max_cap cnt is_local l = Some (dropped, l')" for dropped l'
    using Discard_result [OF that] by (auto intro: c)
  have p: "(\<forall>tx \<in> set (fst (txPricedList_Cap threshold is_local l)). \<not> is_local tx) \<and>
           (\<forall>tx. live_local (all_txs l) is_local tx \<longrightarrow>
              count (mset (price_items (snd (txPricedList_Cap threshold is_local l)))) tx
                = count (mset (price_items l)) tx)"
    using PricedCap_result [of threshold is_local l] by (auto intro: c)
  show ?thesis
    using Discard_panics_iff [of max_cap cnt is_local l] d p by blast
qed


theorem eviction_spares_live_locals_witness:
  "txPricedList_Discard 1000000 1 (containsTx {1}) priced_live
     = Some ([example_tx 22 0 10], priced_live\<lparr>price_items := [local_tx 21 0 5]\<rparr>) \<and>
   fst (txPricedList_Cap 20 (containsTx {1}) priced_live) = [example_tx 22 0 10] \<and>
   \<not> containsTx {1} (example_tx 22 0 10) \<and>
   live_local (all_txs priced_live) (containsTx {1}) (local_tx 21 0 5) \<and>
   count (mset (price_items (priced_live\<lparr>price_items := [local_tx 21 0 5]\<rparr>))) (local_tx 21 0 5)
     = count (mset (price_items priced_live)) (local_tx 21 0 5) \<and>
   count (mset (price_items (snd (txPricedList_Cap 20 (containsTx {1}) priced_live)))) (local_tx 21 0 5)
     = count (mset (price_items priced_live)) (local_tx 21 0 5) \<and>
   txPricedList_Discard 1000000 (- 1) (containsTx {1}) priced_live = None"
proof -
  have d: "txPricedList_Discard 1000000 1 (containsTx {1}) priced_live
             = Some ([example_tx 22 0 10], priced_live\<lparr>price_items := [local_tx 21 0 5]\<rparr>)"
    by code_simp
  have c: "fst (txPricedList_Cap 20 (containsTx {1}) priced_live) = [example_tx 22 0 10]"
    by code_simp
  have l: "live_local (all_txs priced_live) (containsTx {1}) (local_tx 21 0 5)"
    by code_simp
  note pos = eviction_spares_live_locals [of 1000000 1 "containsTx {1}" priced_live 20]
  note neg = eviction_spares_live_locals [of 1000000 "- 1" "containsTx {1}" priced_live 20]
  have after_discard:
    "(\<forall>tx \<in> set [example_tx 22 0 10]. \<not> containsTx {1} tx) \<and>
     (\<forall>tx. live_local (all_txs priced_live) (containsTx {1}) tx \<longrightarrow>
        count (mset (price_items (priced_live\<lparr>price_items := [local_tx 21 0 5]\<rparr>))) tx
          = count (mset (price_items priced_live)) tx)"
    using pos d by blast
  have after_cap:
    "\<forall>tx. live_local (all_txs priced_live) (containsTx {1}) tx \<longrightarrow>
       count (mset (price_items (snd (txPricedList_Cap 20 (containsTx {1}) priced_live)))) tx
         = count (mset (price_items priced_live)) tx"
    using pos by blast
  have remote: "\<not> containsTx {1} (example_tx 22 0 10)"
    using after_discard by simp
  have kept: "count (mset (price_items (priced_live\<lparr>price_items := [local_tx 21 0 5]\<rparr>)))
                (local_tx 21 0 5) = count (mset (price_items priced_live)) (local_tx 21 0 5)"
    using after_discard l by blast
  have kept_cap: "count (mset (price_items (snd (txPricedList_Cap 20 (containsTx {1}) priced_live))))
                (local_tx 21 0 5) = count (mset (price_items priced_live)) (local_tx 21 0 5)"
    using after_cap l by blast
  have panics: "txPricedList_Discard 1000000 (- 1) (containsTx {1}) priced_live = None"
    using neg by simp
  show ?thesis
    by (intro conjI d c remote l kept kept_cap panics)
qed

text \<open>
  C5 (as stated). Every local transaction popped during the scan is claimed to be pushed
  back. In \<open>priced_stale_local\<close> the heap minimum is a local transaction that has left the
  pool. \<^verbatim>\<open>Discard\<close> of one transaction, and \<^verbatim>\<open>Cap\<close> at price 15, pop it first (each goes
  on to drop the next cheapest entry), count it as stale and do not push it back: the
  heap that \<^verbatim>\<open>Discard\<close> leaves holds the transactions of hash 23 and 24 only.
\<close>

theorem stale_local_not_pushed_back:
  "containsTx {1} (local_tx 21 0 5) \<and>
   local_tx 21 0 5 \<in> set (price_items priced_stale_local) \<and>
   map_option fst (txPricedList_Discard 1000000 1 (containsTx {1}) priced_stale_local)
     = Some [example_tx 22 0 10] \<and>
   map_option (price_items \<circ> snd) (txPricedList_Discard 1000000 1 (containsTx {1}) priced_stale_local)
     = Some [example_tx 23 0 20, example_tx 24 0 30] \<and>
   local_tx 21 0 5 \<notin> set [example_tx 23 0 20, example_tx 24 0 30] \<and>
   fst (txPricedList_Cap 15 (containsTx {1}) priced_stale_local) = [example_tx 22 0 10] \<and>
   local_tx 21 0 5 \<notin> set (price_items (snd (txPricedList_Cap 15 (containsTx {1}) priced_stale_local)))"
  by code_simp

text \<open>The sample heaps are the ones \<^verbatim>\<open>Put\<close> builds.\<close>

lemma priced_samples_built_by_Put:
  "price_items (foldl (\<lambda>l tx. txPricedList_Put tx l) (newTxPricedList (all_txs priced_five))
      [example_tx 31 0 10, example_tx 32 0 20, example_tx 33 0 30, example_tx 34 0 40,
       example_tx 35 0 50]) = price_items priced_five"
  "price_items (foldl (\<lambda>l tx. txPricedList_Put tx l) (newTxPricedList (all_txs priced_stale_local))
      [local_tx 21 0 5, example_tx 22 0 10, example_tx 23 0 20, example_tx 24 0 30])
     = price_items priced_stale_local"
  "price_items (foldl (\<lambda>l tx. txPricedList_Put tx l) (newTxPricedList (all_txs priced_live))
      [local_tx 21 0 5, example_tx 22 0 10]) = price_items priced_live"
  by code_simp+

section \<open>The stale counter of the priced list\<close>

lemma length_heap_Init [simp]: "length (heap_Init lt h) = length h"
proof -
  have "length (foldl (\<lambda>h' i. fst (down lt h' i n)) h is) = length h" for n "is"
    by (induction "is" arbitrary: h) simp_all
  then show ?thesis
    by (simp add: heap_Init_def)
qed

lemma heap_Pop_length_eq: "heap_Pop lt h = Some (x, h') \<Longrightarrow> length h = Suc (length h')"
  by (auto simp: heap_Pop_def Let_def split: if_splits)

lemma Underpriced_loop_bound:
  assumes "st \<le> int (length its) div 4"
  shows "case Underpriced_loop all_map (its, st) of (its', st') \<Rightarrow> st' \<le> int (length its') div 4"
  using assms
proof (induction all_map "(its, st)" arbitrary: its st rule: Underpriced_loop.induct)
  case (1 all_map its st)
  show ?case
  proof (cases "length its > 0 \<and> all_map (Hash (its ! 0)) = None")
    case False
    then show ?thesis
      using "1.prems" by (subst Underpriced_loop.simps) auto
  next
    case True
    then obtain tx its1 where pop: "heap_Pop price_Less its = Some (tx, its1)"
      using heap_Pop_nonempty [of its price_Less] by auto
    have len: "length its = Suc (length its1)"
      by (rule heap_Pop_length_eq [OF pop])
    have step: "Underpriced_loop all_map (its, st) = Underpriced_loop all_map (its1, st - 1)"
      using True pop by (subst Underpriced_loop.simps) simp
    have b: "st - 1 \<le> int (length its1) div 4"
      using "1.prems" len by simp
    have T1: "0 < length its" and T2: "all_map (Hash (its ! 0)) = None"
      using True by simp_all
    show ?thesis
      unfolding step by (rule "1.hyps" [OF T1 T2 pop refl b])
  qed
qed

lemma Removed_cases:
  "txPricedList_Removed rk l = l\<lparr>stales := stales l + 1\<rparr> \<and> stales l + 1 \<le> int (length (price_items l)) div 4
   \<or> txPricedList_Removed rk l
        = l\<lparr>stales := 0,
             price_items := heap_Init price_Less (List.map_filter (all_txs l) (rk (all_txs l)))\<rparr>"
  by (simp add: txPricedList_Removed_def Let_def)

text \<open>
  C6 (amended). After \<^verbatim>\<open>Removed\<close> the bound \<open>stales \<le> |items| / 4\<close> holds: either the
  counter was raised by one and stayed within the bound, or the heap was rebuilt from the
  map of all transactions and the counter reset to 0. \<^verbatim>\<open>Put\<close> and \<^verbatim>\<open>Underpriced\<close> keep the
  bound when it held before the call.
\<close>

theorem stale_bound_where_it_holds:
  "stale_bound (txPricedList_Removed rk l) \<and>
   (txPricedList_Removed rk l = l\<lparr>stales := stales l + 1\<rparr>
    \<or> txPricedList_Removed rk l
        = l\<lparr>stales := 0,
             price_items := heap_Init price_Less (List.map_filter (all_txs l) (rk (all_txs l)))\<rparr>) \<and>
   (stale_bound l \<longrightarrow>
      stale_bound (txPricedList_Put tx l) \<and>
      stale_bound (snd (txPricedList_Underpriced tx' is_local l)))"
proof -
  have "0 \<le> int n div 4" for n
    by simp
  then have r: "stale_bound (txPricedList_Removed rk l)"
    by (simp add: txPricedList_Removed_def Let_def stale_bound_def)
  have p: "stale_bound (txPricedList_Put tx l)" if "stale_bound l"
    using that by (simp add: txPricedList_Put_def stale_bound_def)
  have u: "stale_bound (snd (txPricedList_Underpriced tx' is_local l))" if "stale_bound l"
    using that Underpriced_loop_bound [of "stales l" "price_items l" "all_txs l"]
    by (auto simp: txPricedList_Underpriced_def stale_bound_def Let_def split: prod.splits)
  show ?thesis
    using r p u Removed_cases [of rk l] by blast
qed

theorem stale_bound_where_it_holds_witness:
  "stale_bound priced_five \<and>
   stale_bound (txPricedList_Removed ascending_keys priced_five) \<and>
   stale_bound (txPricedList_Put (example_tx 36 0 60) priced_five) \<and>
   stale_bound (snd (txPricedList_Underpriced (example_tx 36 0 60) (containsTx {1}) priced_five))"
proof -
  have b: "stale_bound priced_five"
    by code_simp
  show ?thesis
    using b stale_bound_where_it_holds [of ascending_keys priced_five "example_tx 36 0 60"
        "example_tx 36 0 60" "containsTx {1}"]
    by blast
qed

text \<open>
  C6 (as stated). The bound is claimed after \<^verbatim>\<open>Discard\<close> and \<^verbatim>\<open>Cap\<close> too. In
  \<open>priced_five\<close> it holds (\<open>1 \<le> 5 / 4\<close>). \<^verbatim>\<open>Discard\<close> of three transactions, and \<^verbatim>\<open>Cap\<close>
  at price 35, take the three cheapest entries out and leave two entries with the counter
  still at 1, above \<open>2 / 4 = 0\<close>; neither rebuilds the heap or resets the counter.
\<close>

theorem stale_bound_broken_by_discard_and_cap:
  "stale_bound priced_five \<and>
   map_option (stale_bound \<circ> snd) (txPricedList_Discard 1000000 3 (containsTx {}) priced_five)
     = Some False \<and>
   map_option (stales \<circ> snd) (txPricedList_Discard 1000000 3 (containsTx {}) priced_five)
     = Some 1 \<and>
   \<not> stale_bound (snd (txPricedList_Cap 35 (containsTx {}) priced_five)) \<and>
   stales (snd (txPricedList_Cap 35 (containsTx {}) priced_five)) \<noteq> 0"
  by code_simp

section \<open>\<^verbatim>\<open>heap.Pop\<close> on a heap of nonces\<close>

lemma nth_Swap:
  "i < length h \<Longrightarrow> j < length h \<Longrightarrow>
   Swap h i j ! k = (if k = j then h ! i else if k = i then h ! j else h ! k)"
  by (auto simp: Swap_def nth_list_update)

lemma parent_eq_iff:
  "0 < k \<Longrightarrow> (k - 1) div 2 = i \<longleftrightarrow> k = 2 * i + 1 \<or> k = 2 * i + 2" for k i :: nat
  by presburger

lemma heap_but_leaf:
  assumes "heap_but h n i" and "n \<le> 2 * i + 1"
  shows "heap_upto h n"
  unfolding heap_upto_def
proof (intro allI impI)
  fix k assume k: "0 < k \<and> k < n"
  then have "(k - 1) div 2 \<noteq> i"
    using assms(2) parent_eq_iff [of k i] by auto
  then show "h ! ((k - 1) div 2) \<le> h ! k"
    using assms(1) k by (simp add: heap_but_def)
qed

lemma heap_but_settled:
  assumes "heap_but h n i" and "2 * i + 1 < n"
    and "h ! i \<le> h ! (2 * i + 1)" and "2 * i + 2 < n \<longrightarrow> h ! i \<le> h ! (2 * i + 2)"
  shows "heap_upto h n"
  unfolding heap_upto_def
proof (intro allI impI)
  fix k assume k: "0 < k \<and> k < n"
  show "h ! ((k - 1) div 2) \<le> h ! k"
  proof (cases "(k - 1) div 2 = i")
    case True
    then have "k = 2 * i + 1 \<or> k = 2 * i + 2"
      using k parent_eq_iff [of k i] by blast
    then show ?thesis
      using True assms(3,4) k by auto
  next
    case False
    then show ?thesis
      using assms(1) k by (simp add: heap_but_def)
  qed
qed


lemma heap_but_Swap:
  assumes hb: "heap_but h n i" and len: "n \<le> length h"
    and child: "j = 2 * i + 1 \<or> j = 2 * i + 2" and jn: "j < n"
    and less: "h ! j < h ! i"
    and least: "\<And>c. c = 2 * i + 1 \<or> c = 2 * i + 2 \<Longrightarrow> c < n \<Longrightarrow> h ! j \<le> h ! c"
  shows "heap_but (Swap h i j) n j"
proof -
  have ij: "i < j" and il: "i < length h" and jl: "j < length h"
    using child jn len by auto
  have pj: "(j - 1) div 2 = i"
    using child by auto
  have A: "h ! ((k - 1) div 2) \<le> h ! k" if "0 < k" "k < n" "(k - 1) div 2 \<noteq> i" for k
    using hb that by (simp add: heap_but_def)
  have B: "h ! ((i - 1) div 2) \<le> h ! k" if "0 < k" "k < n" "(k - 1) div 2 = i" "0 < i" for k
    using hb that by (simp add: heap_but_def)
  have first: "Swap h i j ! ((k - 1) div 2) \<le> Swap h i j ! k"
    if k: "0 < k" "k < n" "(k - 1) div 2 \<noteq> j" for k
  proof -
    consider (kj) "k = j" | (sib) "k \<noteq> j" "(k - 1) div 2 = i"
      | (ki) "k = i" | (other) "k \<noteq> j" "k \<noteq> i" "(k - 1) div 2 \<noteq> i"
      by blast
    then show ?thesis
    proof cases
      case kj
      then show ?thesis
        using less pj ij by (simp add: nth_Swap [OF il jl])
    next
      case sib
      then have c: "k = 2 * i + 1 \<or> k = 2 * i + 2"
        using k(1) parent_eq_iff [of k i] by blast
      then have "k \<noteq> i" by auto
      then show ?thesis
        using sib least [OF c k(2)] by (simp add: nth_Swap [OF il jl])
    next
      case ki
      then have i0: "0 < i" using k(1) by simp
      have "(i - 1) div 2 < i" using i0 by auto
      then have ne: "(i - 1) div 2 \<noteq> i" "(i - 1) div 2 \<noteq> j"
        using ij by auto
      have "h ! ((i - 1) div 2) \<le> h ! j"
        using B [of j] pj jn ij i0 by simp
      then show ?thesis
        using ki ne ij by (simp add: nth_Swap [OF il jl])
    next
      case other
      then show ?thesis
        using A [OF k(1,2)] k(3) by (simp add: nth_Swap [OF il jl])
    qed
  qed
  have second: "Swap h i j ! ((j - 1) div 2) \<le> Swap h i j ! k"
    if k: "0 < k" "k < n" "(k - 1) div 2 = j" for k
  proof -
    have "j < k" using k(1,3) by auto
    then have ne: "k \<noteq> i" "k \<noteq> j" using ij by auto
    have "h ! j \<le> h ! k"
      using A [OF k(1,2)] k(3) ij by simp
    then show ?thesis
      using ne pj ij by (simp add: nth_Swap [OF il jl])
  qed
  show ?thesis
    unfolding heap_but_def using first second by blast
qed

lemma down_loop_heap:
  assumes "lt = (<)" and "n \<le> length h" and "heap_but h n i"
  shows "heap_upto (fst (down_loop lt h i n)) n \<and>
         (\<forall>k. n \<le> k \<longrightarrow> fst (down_loop lt h i n) ! k = h ! k)"
  using assms
proof (induction lt h i n rule: down_loop.induct)
  case (1 lt h i n)
  note lt = \<open>lt = (<)\<close>
  show ?case
  proof (cases "n \<le> 2 * i + 1")
    case True
    then have "down_loop lt h i n = (h, i)"
      by (subst down_loop.simps) simp
    then show ?thesis
      using heap_but_leaf [OF "1.prems"(3) True] by simp
  next
    case False
    define j where "j = (if 2 * i + 1 + 1 < n \<and> lt (h ! (2 * i + 1 + 1)) (h ! (2 * i + 1))
                         then 2 * i + 1 + 1 else 2 * i + 1)"
    have child: "j = 2 * i + 1 \<or> j = 2 * i + 2" and jn: "j < n"
      using False by (auto simp: j_def)
    have least: "h ! j \<le> h ! c" if "c = 2 * i + 1 \<or> c = 2 * i + 2" "c < n" for c
      using that by (auto simp: j_def lt)
    have unfold: "down_loop lt h i n
                  = (if lt (h ! j) (h ! i) then down_loop lt (Swap h i j) j n else (h, i))"
      using False by (subst down_loop.simps) (simp add: j_def Let_def)
    show ?thesis
    proof (cases "lt (h ! j) (h ! i)")
      case stop: False
      then have eq: "down_loop lt h i n = (h, i)"
        by (simp add: unfold)
      have "h ! i \<le> h ! j"
        using stop by (simp add: lt)
      then have "h ! i \<le> h ! (2 * i + 1)" "2 * i + 2 < n \<longrightarrow> h ! i \<le> h ! (2 * i + 2)"
        using least False by (auto intro: order_trans)
      then show ?thesis
        using heap_but_settled [OF "1.prems"(3)] False eq by simp
    next
      case go: True
      then have eq: "down_loop lt h i n = down_loop lt (Swap h i j) j n"
        by (simp add: unfold)
      have hb: "heap_but (Swap h i j) n j"
        using heap_but_Swap [OF "1.prems"(3,2) child jn _ least] go by (simp add: lt)
      have IH: "heap_upto (fst (down_loop lt (Swap h i j) j n)) n \<and>
                (\<forall>k. n \<le> k \<longrightarrow> fst (down_loop lt (Swap h i j) j n) ! k = Swap h i j ! k)"
      proof (rule "1.IH" [OF refl False j_def _ lt _ hb])
        show "\<not> \<not> lt (h ! j) (h ! i)" using go by simp
        show "n \<le> length (Swap h i j)" using "1.prems"(2) by simp
      qed
      have "Swap h i j ! k = h ! k" if "n \<le> k" for k
      proof -
        have "k \<noteq> i" "k \<noteq> j"
          using that child jn by auto
        then show ?thesis
          by (simp add: Swap_def)
      qed
      then show ?thesis
        unfolding eq using IH by simp
    qed
  qed
qed


lemma heap_root_least:
  assumes "is_heap h" and "k < length h"
  shows "h ! 0 \<le> h ! k"
  using assms(2)
proof (induction k rule: less_induct)
  case (less k)
  show ?case
  proof (cases "k = 0")
    case True
    then show ?thesis by simp
  next
    case False
    then have p: "(k - 1) div 2 < k" by auto
    have "h ! 0 \<le> h ! ((k - 1) div 2)"
      using less.IH [OF p] p less.prems by simp
    moreover have "h ! ((k - 1) div 2) \<le> h ! k"
      using assms(1) less.prems False by (simp add: is_heap_def)
    ultimately show ?thesis by (rule order_trans)
  qed
qed

lemma heap_Pop_heap:
  assumes "is_heap h" and "heap_Pop (<) h = Some (x, h')"
  shows "x = h ! 0" and "is_heap h'"
proof -
  have ne: "h \<noteq> []"
    using assms(2) by (auto simp: heap_Pop_def split: if_splits)
  define n where "n = length h - 1"
  define h1 where "h1 = Swap h 0 n"
  define h2 where "h2 = fst (down_loop (<) h1 0 n)"
  have n: "n < length h" "0 < length h"
    using ne by (simp_all add: n_def)
  have res: "x = last h2" "h' = butlast h2"
    using assms(2) ne
    by (simp_all add: heap_Pop_def Let_def h2_def h1_def n_def down_def split: prod.splits)
  have len2: "length h2 = length h"
    by (simp add: h2_def h1_def)
  have hb: "heap_but h1 n 0"
    unfolding heap_but_def
  proof (intro conjI allI impI)
    fix k assume k: "0 < k \<and> k < n \<and> (k - 1) div 2 \<noteq> 0"
    then have "(k - 1) div 2 < n" "(k - 1) div 2 \<noteq> n" "k \<noteq> n" "k \<noteq> 0"
      by auto
    then have "h1 ! ((k - 1) div 2) = h ! ((k - 1) div 2)" "h1 ! k = h ! k"
      using k by (simp_all add: h1_def nth_Swap [OF n(2,1)])
    then show "h1 ! ((k - 1) div 2) \<le> h1 ! k"
      using assms(1) k n by (simp add: is_heap_def)
  next
    fix k :: nat assume "0 < k \<and> k < n \<and> (k - 1) div 2 = 0 \<and> (0 :: nat) < 0"
    then show "h1 ! ((0 - 1) div 2) \<le> h1 ! k" by simp
  qed
  have "n \<le> length h1"
    using n by (simp add: h1_def)
  from down_loop_heap [OF refl this hb]
  have up: "heap_upto h2 n" and tail: "h2 ! n = h1 ! n"
    by (simp_all add: h2_def)
  have "h2 \<noteq> []" using len2 ne by auto
  then have "last h2 = h2 ! n"
    using len2 by (simp add: last_conv_nth n_def)
  also have "\<dots> = h ! 0"
    using tail n by (simp add: h1_def nth_Swap [OF n(2,1)])
  finally show "x = h ! 0"
    using res by simp
  have "length h' = n"
    using res len2 by (simp add: n_def)
  moreover have "h' ! k = h2 ! k" if "k < n" for k
    using that res len2 by (simp add: nth_butlast n_def)
  ultimately show "is_heap h'"
    using up unfolding is_heap_def heap_upto_def
    by (metis (no_types, lifting) div_le_dividend le_less_trans less_imp_diff_less order.strict_trans1 diff_le_self)
qed

section \<open>Removing a prefix of nonces: \<^verbatim>\<open>txSortedMap.Forward\<close>\<close>

lemma sorted_list_of_set_least:
  assumes "finite A" and "m \<in> A" and "\<And>k. k \<in> A \<Longrightarrow> m \<le> k"
  shows "sorted_list_of_set A = m # sorted_list_of_set (A - {m})"
proof -
  have "Min A = m"
    using assms by (intro Min_eqI) auto
  moreover have "A \<noteq> {}"
    using assms(2) by auto
  ultimately show ?thesis
    using sorted_list_of_set_nonempty [OF assms(1)] by simp
qed

lemma heap_Pop_distinct:
  assumes "heap_Pop lt h = Some (x, h')" and "distinct h"
  shows "distinct h'" and "set h' = set h - {x}"
proof -
  have ms: "mset h = mset (x # h')"
    using mset_heap_Pop [OF assms(1)] by simp
  have d: "distinct (x # h')"
    using assms(2) mset_eq_imp_distinct_iff [OF ms] by simp
  then show "distinct h'" by simp
  have "set h = set (x # h')"
    by (rule mset_eq_setD [OF ms])
  then show "set h' = set h - {x}"
    using d by auto
qed

lemma Forward_loop_result:
  assumes "is_heap idx" and "distinct idx" and "set idx = dom its"
  shows "\<exists>idx'. Forward_loop t (removed, idx, its) =
           Some (removed @ List.map_filter its (filter (\<lambda>k. k < t) (sorted_list_of_set (dom its))),
                 idx', its |` {k. t \<le> k}) \<and>
           is_heap idx' \<and> distinct idx' \<and> set idx' = dom its \<inter> {k. t \<le> k}"
  using assms
proof (induction "length idx" arbitrary: idx its removed rule: less_induct)
  case less
  have fin: "finite (dom its)"
    unfolding less.prems(3) [symmetric] by simp
  show ?case
  proof (cases "length idx > 0 \<and> idx ! 0 < t")
    case False
    have above: "t \<le> k" if "k \<in> dom its" for k
    proof -
      have "k \<in> set idx"
        using that less.prems(3) by simp
      then obtain i where i: "i < length idx" "idx ! i = k"
        by (auto simp: in_set_conv_nth)
      then have "idx ! 0 \<le> k"
        using heap_root_least [OF less.prems(1)] by auto
      then show ?thesis
        using False i by auto
    qed
    have "\<not> k < t" if "k \<in> set (sorted_list_of_set (dom its))" for k
      using that above [of k] fin by auto
    then have none: "filter (\<lambda>k. k < t) (sorted_list_of_set (dom its)) = []"
      by (simp add: filter_empty_conv)
    have same: "its |` {k. t \<le> k} = its"
    proof
      fix k show "(its |` {k. t \<le> k}) k = its k"
        using above [of k] by (cases "its k") (auto simp: restrict_map_def)
    qed
    have "Forward_loop t (removed, idx, its) = Some (removed, idx, its)"
      using False by (subst Forward_loop.simps) auto
    then show ?thesis
      using less.prems above by (auto simp: none same List.map_filter_simps)
  next
    case True
    then have ne: "idx \<noteq> []" and lt: "idx ! 0 < t"
      by auto
    obtain x idx1 where pop: "heap_Pop (<) idx = Some (x, idx1)"
      using heap_Pop_nonempty [OF ne] by blast
    have x: "x = idx ! 0" and h1: "is_heap idx1"
      using heap_Pop_heap [OF less.prems(1) pop] by simp_all
    have d1: "distinct idx1" and s1: "set idx1 = set idx - {x}"
      using heap_Pop_distinct [OF pop less.prems(2)] by simp_all
    have xin: "x \<in> dom its"
      using x ne less.prems(3) nth_mem [of 0 idx] by auto
    then obtain tx where tx: "its x = Some tx"
      by auto
    have least: "x \<le> k" if "k \<in> dom its" for k
    proof -
      have "k \<in> set idx"
        using that less.prems(3) by simp
      then obtain i where i: "i < length idx" "idx ! i = k"
        by (auto simp: in_set_conv_nth)
      then show ?thesis
        using heap_root_least [OF less.prems(1)] x by auto
    qed
    define its1 where "its1 = its(x := None)"
    have dom1: "dom its1 = dom its - {x}"
      by (auto simp: its1_def)
    have step: "Forward_loop t (removed, idx, its) = Forward_loop t (removed @ [tx], idx1, its1)"
      using True pop tx by (subst Forward_loop.simps) (simp add: its1_def)
    have shorter: "length idx1 < length idx"
      by (rule heap_Pop_length [OF pop])
    have "set idx1 = dom its1"
      using s1 less.prems(3) dom1 by simp
    from less.hyps [OF shorter h1 d1 this, of "removed @ [tx]"]
    obtain idx' where IH:
      "Forward_loop t (removed @ [tx], idx1, its1) =
         Some ((removed @ [tx]) @ List.map_filter its1 (filter (\<lambda>k. k < t) (sorted_list_of_set (dom its1))),
               idx', its1 |` {k. t \<le> k})"
      "is_heap idx'" "distinct idx'" "set idx' = dom its1 \<inter> {k. t \<le> k}"
      by blast
    have sl: "sorted_list_of_set (dom its) = x # sorted_list_of_set (dom its1)"
      unfolding dom1 by (rule sorted_list_of_set_least [OF fin xin least])
    have notin: "x \<notin> set (filter (\<lambda>k. k < t) (sorted_list_of_set (dom its1)))"
      using fin by (simp add: dom1)
    have mf: "List.map_filter its1 (filter (\<lambda>k. k < t) (sorted_list_of_set (dom its1)))
              = List.map_filter its (filter (\<lambda>k. k < t) (sorted_list_of_set (dom its1)))"
      using notin by (intro map_filter_cong_set) (auto simp: its1_def)
    have xt: "x < t" using lt x by simp
    have restr: "its1 |` {k. t \<le> k} = its |` {k. t \<le> k}"
    proof
      fix k show "(its1 |` {k. t \<le> k}) k = (its |` {k. t \<le> k}) k"
        using xt by (auto simp: restrict_map_def its1_def)
    qed
    have "dom its1 \<inter> {k. t \<le> k} = dom its \<inter> {k. t \<le> k}"
      using xt by (auto simp: dom1)
    then show ?thesis
      unfolding step using IH xt tx
      by (auto simp: sl mf restr List.map_filter_simps)
  qed
qed


lemma sorted_filter_split:
  fixes t :: "'a::linorder"
  assumes "sorted xs"
  shows "filter (\<lambda>k. k < t) xs @ filter (\<lambda>k. t \<le> k) xs = xs"
  using assms
proof (induction xs)
  case Nil
  show ?case by simp
next
  case (Cons x xs)
  show ?case
  proof (cases "x < t")
    case True
    then show ?thesis using Cons by simp
  next
    case False
    then have "\<forall>y \<in> set xs. \<not> y < t"
      using Cons.prems by auto
    then have "filter (\<lambda>k. k < t) xs = []" "filter (\<lambda>k. t \<le> k) xs = xs"
      by (auto simp: filter_empty_conv filter_id_conv)
    then show ?thesis using False by simp
  qed
qed

lemma map_filter_append: "List.map_filter f (xs @ ys) = List.map_filter f xs @ List.map_filter f ys"
  by (simp add: List.map_filter_def)

lemma ascending_keys_restrict:
  assumes "finite (dom its)"
  shows "ascending_keys (its |` {k. t \<le> k}) = filter (\<lambda>k. t \<le> k) (ascending_keys its)"
proof -
  have "dom (its |` {k. t \<le> k}) = dom its \<inter> {k. t \<le> k}"
    by simp
  have fin: "finite (dom (its |` {k. t \<le> k}))"
    using assms by simp
  show ?thesis
    unfolding ascending_keys_def
  proof (rule sorted_distinct_set_unique)
    show "sorted (sorted_list_of_set (dom (its |` {k. t \<le> k})))" by simp
    show "distinct (sorted_list_of_set (dom (its |` {k. t \<le> k})))" by simp
    show "sorted (filter (\<lambda>k. t \<le> k) (sorted_list_of_set (dom its)))"
      by (simp add: sorted_wrt_filter)
    show "distinct (filter (\<lambda>k. t \<le> k) (sorted_list_of_set (dom its)))" by simp
    show "set (sorted_list_of_set (dom (its |` {k. t \<le> k})))
          = set (filter (\<lambda>k. t \<le> k) (sorted_list_of_set (dom its)))"
      using assms fin by auto
  qed
qed

text \<open>
  C3. For a map that satisfies its data invariants (the index is a heap of the keys of
  \<open>items\<close>, each once; every transaction is stored under its nonce; a present cache is the
  sorted content), \<^verbatim>\<open>Forward\<close> returns normally, the removed slice holds exactly the stored
  transactions with a nonce below the threshold, by strictly ascending nonce, and the
  entries with a nonce at or above the threshold are all that is left, unchanged. The
  invariants hold again afterwards.
\<close>

theorem Forward_removes_below_threshold:
  assumes "is_heap (index m)" and "index_agrees m" and "keyed m" and "cache_ok m"
  shows "case txSortedMap_Forward threshold m of
           None \<Rightarrow> False
         | Some (removed, m') \<Rightarrow>
             removed = List.map_filter (items m)
                         (filter (\<lambda>k. k < threshold) (ascending_keys (items m))) \<and>
             set removed = {tx \<in> ran (items m). Nonce tx < threshold} \<and>
             sorted_wrt (<) (map Nonce removed) \<and>
             items m' = items m |` {k. threshold \<le> k} \<and>
             is_heap (index m') \<and> index_agrees m' \<and> keyed m' \<and> cache_ok m'"
proof -
  define ks where "ks = ascending_keys (items m)"
  define low where "low = filter (\<lambda>k. k < threshold) ks"
  define high where "high = filter (\<lambda>k. threshold \<le> k) ks"
  define removed where "removed = List.map_filter (items m) low"
  define its' where "its' = items m |` {k. threshold \<le> k}"
  have d: "distinct (index m)" and s: "set (index m) = dom (items m)"
    using assms(2) by (simp_all add: index_agrees_def)
  have fin: "finite (dom (items m))"
    unfolding s [symmetric] by simp
  have ks: "set ks = dom (items m)" "distinct ks" "sorted_wrt (<) ks" "sorted ks"
    unfolding ks_def using ascending_keys_props [OF fin] by (simp_all add: ascending_keys_def)
  have key: "\<And>k tx. items m k = Some tx \<Longrightarrow> Nonce tx = k"
    using assms(3) by (simp add: keyed_def)
  obtain idx' where loop:
    "Forward_loop threshold ([], index m, items m) = Some (removed, idx', its')"
    and idx': "is_heap idx'" "distinct idx'" "set idx' = dom (items m) \<inter> {k. threshold \<le> k}"
    using Forward_loop_result [OF assms(1) d s, of threshold "[]"]
    by (auto simp: removed_def low_def ks_def its'_def ascending_keys_def)
  have split: "low @ high = ks"
    unfolding low_def high_def by (rule sorted_filter_split [OF ks(4)])
  have lowsub: "set low \<subseteq> dom (items m)" and highsub: "set high \<subseteq> dom (items m)"
    using ks(1) by (auto simp: low_def high_def)
  have len: "length removed = length low"
    unfolding removed_def by (rule map_filter_present(1) [OF lowsub])
  have nonces: "map Nonce removed = low"
    unfolding removed_def by (rule map_filter_present(2) [OF lowsub key])
  have asc: "sorted_wrt (<) (map Nonce removed)"
    unfolding nonces low_def using ks(3) by (simp add: sorted_wrt_filter)
  have setr: "set removed = {tx \<in> ran (items m). Nonce tx < threshold}"
  proof (intro set_eqI iffI)
    fix tx assume "tx \<in> set removed"
    then obtain k where "k \<in> set low" "items m k = Some tx"
      by (auto simp: removed_def List.map_filter_def)
    then show "tx \<in> {tx \<in> ran (items m). Nonce tx < threshold}"
      using key [of k tx] by (auto simp: low_def ran_def)
  next
    fix tx assume "tx \<in> {tx \<in> ran (items m). Nonce tx < threshold}"
    then obtain k where k: "items m k = Some tx" and "Nonce tx < threshold"
      by (auto simp: ran_def)
    then have "k \<in> set low"
      using key [OF k] ks(1) by (auto simp: low_def)
    then show "tx \<in> set removed"
      using k by (force simp: removed_def List.map_filter_def)
  qed
  have keyed': "keyed (m\<lparr>items := its', index := idx', cache := c'\<rparr>)" for c'
    using key by (auto simp: keyed_def its'_def restrict_map_def split: if_splits)
  have agrees': "index_agrees (m\<lparr>items := its', index := idx', cache := c'\<rparr>)" for c'
    using idx' by (simp add: index_agrees_def its'_def)
  have keys': "ascending_keys its' = high"
    unfolding its'_def high_def ks_def by (rule ascending_keys_restrict [OF fin])
  have mf': "List.map_filter its' high = List.map_filter (items m) high"
    by (intro map_filter_cong_set) (auto simp: its'_def high_def restrict_map_def)
  show ?thesis
  proof (cases "cache m")
    case None
    have res: "txSortedMap_Forward threshold m = Some (removed, m\<lparr>items := its', index := idx'\<rparr>)"
      by (simp add: txSortedMap_Forward_def loop None)
    have "m\<lparr>items := its', index := idx'\<rparr> = m\<lparr>items := its', index := idx', cache := None\<rparr>"
      using None by simp
    then have "keyed (m\<lparr>items := its', index := idx'\<rparr>)"
      "index_agrees (m\<lparr>items := its', index := idx'\<rparr>)"
      using keyed' [of None] agrees' [of None] by simp_all
    moreover have "cache_ok (m\<lparr>items := its', index := idx'\<rparr>)"
      using None by (simp add: cache_ok_def)
    ultimately show ?thesis
      unfolding res using setr asc idx'(1)
      by (simp add: removed_def low_def ks_def its'_def)
  next
    case (Some c)
    have c: "c = List.map_filter (items m) low @ List.map_filter (items m) high"
      using assms(4) Some
      by (simp add: cache_ok_def ks_def [symmetric] split [symmetric] map_filter_append)
    have lenc: "length removed \<le> length c"
      unfolding c removed_def by simp
    have dropc: "drop (length removed) c = List.map_filter its' (ascending_keys its')"
      unfolding keys' mf' c removed_def by simp
    have res: "txSortedMap_Forward threshold m
               = Some (removed, m\<lparr>items := its', index := idx',
                                   cache := Some (drop (length removed) c)\<rparr>)"
      using lenc by (simp add: txSortedMap_Forward_def loop Some)
    have "cache_ok (m\<lparr>items := its', index := idx', cache := Some (drop (length removed) c)\<rparr>)"
      using dropc by (simp add: cache_ok_def)
    then show ?thesis
      unfolding res using setr asc idx'(1) keyed' agrees'
      by (simp add: removed_def low_def ks_def its'_def)
  qed
qed


theorem Forward_removes_below_threshold_witness:
  "is_heap (index example_cached_map) \<and> index_agrees example_cached_map \<and>
   keyed example_cached_map \<and> cache_ok example_cached_map \<and>
   (case txSortedMap_Forward 7 example_cached_map of
      None \<Rightarrow> False
    | Some (removed, m') \<Rightarrow>
        removed = List.map_filter (items example_cached_map)
                    (filter (\<lambda>k. k < 7) (ascending_keys (items example_cached_map))) \<and>
        set removed = {tx \<in> ran (items example_cached_map). Nonce tx < 7} \<and>
        sorted_wrt (<) (map Nonce removed) \<and>
        items m' = items example_cached_map |` {k. 7 \<le> k} \<and>
        is_heap (index m') \<and> index_agrees m' \<and> keyed m' \<and> cache_ok m')"
proof -
  have a: "is_heap (index example_cached_map)"
    by (simp add: is_heap_example)
  have b: "index_agrees example_cached_map"
    using index_agrees_example_map by (simp add: index_agrees_def)
  have c: "keyed example_cached_map"
    using keyed_example_map by (simp add: keyed_def)
  have d: "cache_ok example_cached_map"
    by (rule cache_ok_example_cached_map)
  show ?thesis
    by (intro conjI a b c d Forward_removes_below_threshold [OF a b c d])
qed

lemma scenario_S3:
  "map_option fst (txSortedMap_Forward 7 example_cached_map)
     = Some [example_tx 15 5 10, example_tx 16 6 10]"
  "map_option (cache \<circ> snd) (txSortedMap_Forward 7 example_cached_map)
     = Some (Some [example_tx 17 7 10])"
  by code_simp+

section \<open>The journal: \<^verbatim>\<open>rotate\<close>, then \<^verbatim>\<open>load\<close>\<close>




lemma encode_all_no_failure:
  assumes "no_failure fails"
  shows "encode_all fails enc p ts k content = (None, content @ concat (map enc ts))"
  using assms by (induction ts arbitrary: k content) (simp_all add: no_failure_def)

lemma rotate_result:
  assumes "no_failure fails"
  shows "txJournal_rotate fails enc rk all_map journal fs =
     (None, journal\<lparr>writer := Some (File (path journal))\<rparr>,
      fs(path journal @ ''.new'' := None, path journal \<mapsto> concat (map enc (journaled rk all_map))))"
proof -
  have c: "close_writer fails (writer journal) = None"
    using assms by (simp add: close_writer_def no_failure_def split: option.splits WriteCloser.splits)
  show ?thesis
    using assms
    by (simp add: txJournal_rotate_def Let_def c encode_all_no_failure [OF assms] no_failure_def)
qed









lemma journaled_example:
  "journaled ascending_keys example_pool_txs = [[170, 187], [204], [7]]"
  by (simp add: journaled_def ascending_keys_def example_pool_txs_def List.map_filter_simps)

lemma journal_example_file:
  "txJournal_rotate (\<lambda>op. False) frame_enc ascending_keys example_pool_txs
     (newTxJournal ''transactions.rlp'') Map.empty
   = (None, \<lparr>path = ''transactions.rlp'', writer = Some (File ''transactions.rlp'')\<rparr>,
      [''transactions.rlp'' \<mapsto> [2, 170, 187, 1, 204, 1, 7]])"
proof -
  have nf: "no_failure (\<lambda>op. False)"
    by (simp add: no_failure_def)
  show ?thesis
    unfolding rotate_result [OF nf] journaled_example
    by (auto simp: newTxJournal_def frame_enc_def fun_eq_iff)
qed

end
